theory Spec2Isabelle
  imports Main "HOL-Library.Sublist"
begin

section \<open>Text, bytes and the Python string operations used by the script\<close>

text \<open>
  The script \<^verbatim>\<open>_misc/readme_update_helptext.py\<close> handles two kinds of sequences.
  \<^item> \<^verbatim>\<open>p.stdout\<close> and the contents of \<^verbatim>\<open>readme.rst\<close> on disk are bytes: a list of
    bytes, here \<open>string\<close> (a \<open>char\<close> of HOL is one byte).
  \<^item> Everything else is a Python \<^verbatim>\<open>str\<close>: a list of Unicode code points, here a list of
    natural numbers, so that \<open>length\<close>, indexing and slicing count code points as
    Python does.
\<close>

type_synonym ustr = "nat list"

definition str :: "string \<Rightarrow> ustr" where
  \<comment> \<open>an ASCII literal of the source as a \<^verbatim>\<open>str\<close>\<close>
  "str s = map of_char s"

subsection \<open>\<^verbatim>\<open>bytes.decode('utf-8')\<close>\<close>

definition cont :: "nat \<Rightarrow> bool" where
  \<comment> \<open>a UTF-8 continuation byte \<^verbatim>\<open>10xxxxxx\<close>\<close>
  "cont b = (128 \<le> b \<and> b < 192)"

text \<open>
  The strict decoder: shortest form only, no surrogates (\<^verbatim>\<open>ED A0..BF\<close>), nothing above
  U+10FFFF. \<open>None\<close> is Python's \<^verbatim>\<open>UnicodeDecodeError\<close>.
\<close>

fun utf8_dec :: "nat list \<Rightarrow> ustr option" where
  "utf8_dec [] = Some []"
| "utf8_dec (a # bs) =
    (if a < 128 then map_option (Cons a) (utf8_dec bs)
     else if 194 \<le> a \<and> a < 224 then
       (case bs of
          b1 # r \<Rightarrow>
            if cont b1
            then map_option (Cons ((a - 192) * 64 + (b1 - 128))) (utf8_dec r)
            else None
        | _ \<Rightarrow> None)
     else if 224 \<le> a \<and> a < 240 then
       (case bs of
          b1 # b2 # r \<Rightarrow>
            if cont b1 \<and> cont b2 \<and> (a = 224 \<longrightarrow> 160 \<le> b1) \<and> (a = 237 \<longrightarrow> b1 < 160)
            then map_option
                   (Cons ((a - 224) * 4096 + (b1 - 128) * 64 + (b2 - 128))) (utf8_dec r)
            else None
        | _ \<Rightarrow> None)
     else if 240 \<le> a \<and> a < 245 then
       (case bs of
          b1 # b2 # b3 # r \<Rightarrow>
            if cont b1 \<and> cont b2 \<and> cont b3 \<and> (a = 240 \<longrightarrow> 144 \<le> b1) \<and> (a = 244 \<longrightarrow> b1 < 144)
            then map_option
                   (Cons ((a - 240) * 262144 + (b1 - 128) * 4096 + (b2 - 128) * 64 + (b3 - 128)))
                   (utf8_dec r)
            else None
        | _ \<Rightarrow> None)
     else None)"

definition utf8_decode :: "string \<Rightarrow> ustr option" where
  "utf8_decode bs = utf8_dec (map of_char bs)"

subsection \<open>\<^verbatim>\<open>str.encode('utf-8')\<close>\<close>

definition scalar :: "nat \<Rightarrow> bool" where
  \<comment> \<open>a code point that UTF-8 can encode: up to U+10FFFF and no surrogate\<close>
  "scalar c = (c < 1114112 \<and> \<not> (55296 \<le> c \<and> c < 57344))"

definition utf8_enc1 :: "nat \<Rightarrow> nat list" where
  \<comment> \<open>the one to four bytes of a code point\<close>
  "utf8_enc1 c =
     (if c < 128 then [c]
      else if c < 2048 then [192 + c div 64, 128 + c mod 64]
      else if c < 65536 then [224 + c div 4096, 128 + c div 64 mod 64, 128 + c mod 64]
      else [240 + c div 262144, 128 + c div 4096 mod 64, 128 + c div 64 mod 64,
            128 + c mod 64])"

definition utf8_enc :: "ustr \<Rightarrow> string" where
  "utf8_enc t = map char_of (concat (map utf8_enc1 t))"

definition utf8_encode :: "ustr \<Rightarrow> string option" where
  \<comment> \<open>\<open>None\<close> is Python's \<^verbatim>\<open>UnicodeEncodeError\<close>\<close>
  "utf8_encode t = (if list_all scalar t then Some (utf8_enc t) else None)"

subsection \<open>Reading a file opened with \<^verbatim>\<open>open(name, 'r', encoding='utf-8')\<close>\<close>

text \<open>
  No \<^verbatim>\<open>newline=\<close> is given, so the file object reads with universal newlines:
  \<^verbatim>\<open>\r\n\<close> and a lone \<^verbatim>\<open>\r\<close> both come out of \<^verbatim>\<open>f.read()\<close> as \<^verbatim>\<open>\n\<close>.
\<close>

fun universal_newlines :: "ustr \<Rightarrow> ustr" where
  "universal_newlines [] = []"
| "universal_newlines [c] = [if c = 13 then 10 else c]"
| "universal_newlines (c # d # cs) =
     (if c = 13 \<and> d = 10 then 10 # universal_newlines cs
      else if c = 13 then 10 # universal_newlines (d # cs)
      else c # universal_newlines (d # cs))"

definition read_text :: "string \<Rightarrow> ustr option" where
  \<comment> \<open>\<^verbatim>\<open>f.read()\<close> on the bytes of the file; \<open>None\<close> is \<^verbatim>\<open>UnicodeDecodeError\<close>\<close>
  "read_text raw = map_option universal_newlines (utf8_decode raw)"

subsection \<open>\<^verbatim>\<open>str.isspace\<close>, \<^verbatim>\<open>str.rstrip\<close>, \<^verbatim>\<open>str.strip\<close>\<close>

definition isspace :: "nat \<Rightarrow> bool" where
  \<comment> \<open>the code points Python's \<^verbatim>\<open>str\<close> methods treat as whitespace\<close>
  "isspace c =
     ((9 \<le> c \<and> c \<le> 13) \<or> (28 \<le> c \<and> c \<le> 32) \<or> c = 133 \<or> c = 160 \<or> c = 5760
      \<or> (8192 \<le> c \<and> c \<le> 8202) \<or> c = 8232 \<or> c = 8233 \<or> c = 8239 \<or> c = 8287
      \<or> c = 12288)"

definition rstrip :: "ustr \<Rightarrow> ustr" where
  "rstrip s = rev (dropWhile isspace (rev s))"

definition strip :: "ustr \<Rightarrow> ustr" where
  "strip s = dropWhile isspace (rstrip s)"

subsection \<open>\<^verbatim>\<open>str.splitlines(True)\<close> and \<^verbatim>\<open>textwrap.indent\<close>\<close>

definition linebreak :: "nat \<Rightarrow> bool" where
  \<comment> \<open>the code points at which \<^verbatim>\<open>str.splitlines\<close> ends a line\<close>
  "linebreak c =
     ((10 \<le> c \<and> c \<le> 13) \<or> (28 \<le> c \<and> c \<le> 30) \<or> c = 133 \<or> c = 8232 \<or> c = 8233)"

text \<open>
  \<open>splitl cur s\<close> scans \<open>s\<close> with the line collected so far in \<open>cur\<close>. A line ends after
  a line break, \<^verbatim>\<open>\r\n\<close> counting as one; the line keeps its break; a last line without
  a break is kept when it is not empty.
\<close>

fun splitl :: "ustr \<Rightarrow> ustr \<Rightarrow> ustr list" where
  "splitl cur [] = (if cur = [] then [] else [cur])"
| "splitl cur [c] = [cur @ [c]]"
| "splitl cur (c # d # cs) =
     (if c = 13 \<and> d = 10 then (cur @ [c, d]) # splitl [] cs
      else if linebreak c then (cur @ [c]) # splitl [] (d # cs)
      else splitl (cur @ [c]) (d # cs))"

definition splitlines_keepends :: "ustr \<Rightarrow> ustr list" where
  "splitlines_keepends s = splitl [] s"

definition indent_line :: "ustr \<Rightarrow> ustr \<Rightarrow> ustr" where
  \<comment> \<open>the default predicate of \<^verbatim>\<open>textwrap.indent\<close>: prefix a line only if
      \<^verbatim>\<open>line.strip()\<close> is not empty\<close>
  "indent_line pfx line = (if strip line \<noteq> [] then pfx @ line else line)"

definition textwrap_indent :: "ustr \<Rightarrow> ustr \<Rightarrow> ustr" where
  "textwrap_indent text pfx = concat (map (indent_line pfx) (splitlines_keepends text))"

subsection \<open>\<^verbatim>\<open>str.find\<close> and slices\<close>

fun find_at :: "'a list \<Rightarrow> 'a list \<Rightarrow> nat \<Rightarrow> int" where
  \<comment> \<open>the second argument is what is left of the text from index \<open>i\<close> on\<close>
  "find_at sub [] i = (if sub = [] then int i else - 1)"
| "find_at sub (x # xs) i = (if prefix sub (x # xs) then int i else find_at sub xs (Suc i))"

definition py_find :: "'a list \<Rightarrow> 'a list \<Rightarrow> int \<Rightarrow> int" where
  \<comment> \<open>\<^verbatim>\<open>s.find(sub, start)\<close>: a negative \<open>start\<close> counts from the end and is clipped
      at 0; the lowest index at or after it where \<open>sub\<close> occurs, or \<open>-1\<close>\<close>
  "py_find s sub start =
     (let n = int (length s);
          st = (if start < 0 then max 0 (start + n) else start)
      in if n < st then - 1 else find_at sub (drop (nat st) s) (nat st))"

definition slice_to :: "'a list \<Rightarrow> int \<Rightarrow> 'a list" where
  \<comment> \<open>\<^verbatim>\<open>s[:i]\<close>\<close>
  "slice_to s i = take (nat (if i < 0 then int (length s) + i else i)) s"

definition slice_from :: "'a list \<Rightarrow> int \<Rightarrow> 'a list" where
  \<comment> \<open>\<^verbatim>\<open>s[i:]\<close>\<close>
  "slice_from s i = drop (nat (if i < 0 then int (length s) + i else i)) s"

section \<open>The script\<close>

text \<open>
  What \<^verbatim>\<open>main\<close> reads from and writes to its environment:
  \<^item> the outcome of \<^verbatim>\<open>subprocess.run([...], stdout=subprocess.PIPE)\<close>: the call raises
    when the child cannot be started, and otherwise returns the exit status and the
    captured bytes (\<^verbatim>\<open>check=True\<close> is not passed);
  \<^item> the bytes of the file \<^verbatim>\<open>readme.rst\<close>, \<open>None\<close> when the file cannot be opened for
    reading. The script opens it in text mode: reading decodes the bytes and translates
    line ends (\<open>read_text\<close>), writing encodes the text (\<open>utf8_encode\<close>) and replaces the
    whole file; \<^verbatim>\<open>\n\<close> is written as it is, as on every system whose line separator is
    \<^verbatim>\<open>\n\<close>, and a file that could be read can be written;
  \<^item> the lines printed.
\<close>

datatype run_result = LaunchFailed | Completed int string

datatype error =
  SubprocessLaunchError | UnicodeDecodeError | FileReadError | UnicodeEncodeError

record world =
  readme :: "string option"
  console :: "ustr list"

definition help_begin_text :: ustr where
  "help_begin_text = str ''.. BEGIN HELP TEXT''"

definition help_end_text :: ustr where
  "help_end_text = str ''.. END HELP TEXT''"

definition label_text :: ustr where
  "label_text = str ''\<newline>Output of ``nirw-search --help``::\<newline>\<newline>''"

definition not_found_message :: "ustr \<Rightarrow> ustr" where
  \<comment> \<open>\<^verbatim>\<open>'Error: {!r} not found'.format(t)\<close>; the \<^verbatim>\<open>repr\<close> of a marker is the marker
      between single quotes\<close>
  "not_found_message t = str ''Error: '' @ [39] @ t @ [39] @ str '' not found''"

definition print :: "ustr \<Rightarrow> world \<Rightarrow> world" where
  "print line w = w\<lparr>console := console w @ [line]\<rparr>"

definition format_help :: "ustr \<Rightarrow> ustr" where
  \<comment> \<open>the two assignments to \<^verbatim>\<open>help_output\<close>, from the decoded text\<close>
  "format_help txt =
     (let help_output = rstrip txt @ str ''\<newline>\<newline>''
      in label_text @ textwrap_indent help_output (str ''   ''))"

definition main :: "run_result \<Rightarrow> world \<Rightarrow> error + world" where
  "main p w =
     (case p of
        LaunchFailed \<Rightarrow> Inl SubprocessLaunchError
      | Completed returncode stdout \<Rightarrow>
          (case utf8_decode stdout of
             None \<Rightarrow> Inl UnicodeDecodeError
           | Some txt \<Rightarrow>
               (let help_output = format_help txt
                in case readme w of
                     None \<Rightarrow> Inl FileReadError
                   | Some raw \<Rightarrow>
                       (case read_text raw of
                          None \<Rightarrow> Inl UnicodeDecodeError
                        | Some data \<Rightarrow>
                            (let help_begin_index = py_find data help_begin_text 0;
                                 help_end_index = py_find data help_end_text help_begin_index
                             in if help_begin_index = - 1
                                then Inr (print (not_found_message help_begin_text) w)
                                else if help_end_index = - 1
                                then Inr (print (not_found_message help_end_text) w)
                                else
                                  (let help_begin_index =
                                         help_begin_index + int (length help_begin_text) + 1;
                                       data_update =
                                         slice_to data help_begin_index @ help_output
                                         @ slice_from data help_end_index
                                   in case utf8_encode data_update of
                                        None \<Rightarrow> Inl UnicodeEncodeError
                                      | Some bytes \<Rightarrow> Inr (w\<lparr>readme := Some bytes\<rparr>)))))))"

section \<open>Vocabulary for the statements\<close>

definition file_text :: "world \<Rightarrow> ustr option" where
  \<comment> \<open>the \<^verbatim>\<open>str\<close> that \<^verbatim>\<open>f.read()\<close> returns in this world, if it returns one\<close>
  "file_text w = (case readme w of None \<Rightarrow> None | Some raw \<Rightarrow> read_text raw)"

text \<open>
  Where a text occurs in another, said without \<open>find_at\<close>: \<open>sub\<close> occurs in \<open>s\<close> at
  index \<open>i\<close> when \<open>s[i : i + len(sub)] == sub\<close>.
\<close>

definition occurs_at :: "'a list \<Rightarrow> 'a list \<Rightarrow> nat \<Rightarrow> bool" where
  "occurs_at sub s i = (i \<le> length s \<and> prefix sub (drop i s))"

definition first_occurrence :: "'a list \<Rightarrow> 'a list \<Rightarrow> nat \<Rightarrow> nat \<Rightarrow> bool" where
  \<comment> \<open>\<open>m\<close> is the lowest index at or after \<open>st\<close> where \<open>sub\<close> occurs in \<open>s\<close>\<close>
  "first_occurrence sub s st m =
     (st \<le> m \<and> occurs_at sub s m \<and> list_all (\<lambda>j. \<not> occurs_at sub s j) [st..<m])"

definition absent_from :: "'a list \<Rightarrow> 'a list \<Rightarrow> nat \<Rightarrow> bool" where
  \<comment> \<open>\<open>sub\<close> occurs in \<open>s\<close> at no index at or after \<open>st\<close>\<close>
  "absent_from sub s st = list_all (\<lambda>j. \<not> occurs_at sub s j) [st..<Suc (length s)]"

definition occurrences :: "'a list \<Rightarrow> 'a list \<Rightarrow> nat list" where
  \<comment> \<open>every index where \<open>sub\<close> occurs in \<open>s\<close>, in increasing order\<close>
  "occurrences sub s = filter (occurs_at sub s) [0..<Suc (length s)]"

definition label_line :: ustr where
  \<comment> \<open>the second of the three lines of \<open>label_text\<close>\<close>
  "label_line = str ''Output of ``nirw-search --help``::\<newline>''"

text \<open>
  What it is for a list of texts to be the lines of their concatenation, said without
  \<open>splitl\<close>. A complete line is a stretch without line breaks followed by one line end
  (\<^verbatim>\<open>\r\n\<close>, or a single line break character). In a text cut into its lines every line
  but the last is complete, the last is complete or a stretch without line breaks that
  is not empty, and no line that ends in \<^verbatim>\<open>\r\<close> is followed by one that starts with
  \<^verbatim>\<open>\n\<close>.
\<close>

definition complete_line :: "ustr \<Rightarrow> bool" where
  "complete_line l =
     (l \<noteq> [] \<and> linebreak (last l)
      \<and> list_all (\<lambda>c. \<not> linebreak c)
            (if 2 \<le> length l \<and> last l = 10 \<and> last (butlast l) = 13
             then butlast (butlast l) else butlast l))"

fun proper_lines :: "ustr list \<Rightarrow> bool" where
  "proper_lines [] = True"
| "proper_lines [l] = (l \<noteq> [] \<and> (complete_line l \<or> list_all (\<lambda>c. \<not> linebreak c) l))"
| "proper_lines (l # m # ls) =
     (complete_line l \<and> \<not> (last l = 13 \<and> hd m = 10) \<and> proper_lines (m # ls))"

definition blank :: "ustr \<Rightarrow> bool" where
  \<comment> \<open>empty, or whitespace only\<close>
  "blank l = list_all isspace l"

text \<open>
  The block as the specification words it: the decoded output without its trailing
  whitespace and with two newline characters, every line of it after three spaces, after
  the label line and an empty line.
\<close>

definition block_as_specified :: "ustr \<Rightarrow> ustr" where
  "block_as_specified txt =
     label_line @ str ''\<newline>''
     @ concat (map (\<lambda>l. str ''   '' @ l)
                 (splitlines_keepends (rstrip txt @ str ''\<newline>\<newline>'')))"

section \<open>The codec: decoding and encoding are inverse to each other\<close>

lemma base64_digits:
  fixes c :: nat
  obtains d r where "c = d * 64 + r" "r < 64" "c div 64 = d" "c mod 64 = r"
proof
  show "c = (c div 64) * 64 + c mod 64" by simp
  show "c mod 64 < 64" by simp
qed simp_all

lemma div_4096: "(c::nat) div 4096 = c div 64 div 64"
  by (simp add: div_mult2_eq[symmetric])

lemma div_262144: "(c::nat) div 262144 = c div 64 div 64 div 64"
  by (simp add: div_mult2_eq[symmetric])

lemma utf8_dec_enc1:
  assumes "scalar c"
  shows "utf8_dec (utf8_enc1 c @ r) = map_option (Cons c) (utf8_dec r)"
proof -
  obtain d0 r0 where d0: "c = d0 * 64 + r0" "r0 < 64" "c div 64 = d0" "c mod 64 = r0"
    by (rule base64_digits)
  obtain d1 r1 where d1: "d0 = d1 * 64 + r1" "r1 < 64" "d0 div 64 = d1" "d0 mod 64 = r1"
    by (rule base64_digits)
  obtain d2 r2 where d2: "d1 = d2 * 64 + r2" "r2 < 64" "d1 div 64 = d2" "d1 mod 64 = r2"
    by (rule base64_digits)
  have sc: "c < 1114112" "\<not> (55296 \<le> c \<and> c < 57344)" using assms by (simp_all add: scalar_def)
  consider "c < 128" | "128 \<le> c" "c < 2048" | "2048 \<le> c" "c < 65536" | "65536 \<le> c" by linarith
  then show ?thesis
  proof cases
    case 1
    then show ?thesis by (simp add: utf8_enc1_def)
  next
    case 2
    have e: "utf8_enc1 c = [192 + d0, 128 + r0]" using 2 d0 by (simp add: utf8_enc1_def)
    have "2 \<le> d0" "d0 < 32" using 2 d0(1,2) by linarith+
    then show ?thesis unfolding e using d0(1,2) by (simp add: cont_def)
  next
    case 3
    have e: "utf8_enc1 c = [224 + d1, 128 + r1, 128 + r0]"
      using 3 d0 d1 by (simp add: utf8_enc1_def div_4096)
    have q: "d1 < 16" using 3 d0(1,2) d1(1,2) by linarith
    have a: "d1 = 0 \<longrightarrow> 32 \<le> r1" using 3 d0(1,2) d1(1,2) by auto
    have b: "d1 = 13 \<longrightarrow> r1 < 32" using sc d0(1,2) d1(1,2) by auto
    have eq: "d1 * 4096 + r1 * 64 + r0 = c" using d0(1) d1(1) by simp
    show ?thesis unfolding e using q a b eq d0(2) d1(2) by (simp add: cont_def)
  next
    case 4
    have e: "utf8_enc1 c = [240 + d2, 128 + r2, 128 + r1, 128 + r0]"
      using 4 d0 d1 d2 by (simp add: utf8_enc1_def div_4096 div_262144)
    have q: "d2 < 5" using sc d0(1,2) d1(1,2) d2(1,2) by linarith
    have a: "d2 = 0 \<longrightarrow> 16 \<le> r2" using 4 d0(1,2) d1(1,2) d2(1,2) by auto
    have b: "d2 = 4 \<longrightarrow> r2 < 16" using sc d0(1,2) d1(1,2) d2(1,2) by auto
    have eq: "d2 * 262144 + r2 * 4096 + r1 * 64 + r0 = c" using d0(1) d1(1) d2(1) by simp
    show ?thesis unfolding e using q a b eq d0(2) d1(2) d2(2) by (simp add: cont_def)
  qed
qed


lemma digits_div_mod:
  fixes q r :: nat
  assumes "r < 64"
  shows "(q * 64 + r) div 64 = q" "(q * 64 + r) mod 64 = r"
  using assms by simp_all

lemma utf8_dec_step:
  assumes "utf8_dec (a # bs) = Some t"
  shows "\<exists>c t' r. t = c # t' \<and> scalar c \<and> a # bs = utf8_enc1 c @ r \<and> utf8_dec r = Some t'"
proof -
  consider "a < 128" | "194 \<le> a" "a < 224" | "224 \<le> a" "a < 240" | "240 \<le> a" "a < 245"
    | "128 \<le> a" "a < 194" | "245 \<le> a" by linarith
  then show ?thesis
  proof cases
    case 1
    with assms obtain t' where "t = a # t'" "utf8_dec bs = Some t'" by auto
    moreover have "scalar a" "utf8_enc1 a = [a]" using 1 by (simp_all add: scalar_def utf8_enc1_def)
    ultimately show ?thesis by auto
  next
    case 2
    with assms obtain b1 r t' where b: "bs = b1 # r" "cont b1" "utf8_dec r = Some t'"
      "t = ((a - 192) * 64 + (b1 - 128)) # t'"
      by (auto split: list.splits if_splits)
    define q where "q = a - 192"
    define m where "m = b1 - 128"
    define c where "c = q * 64 + m"
    have qm: "2 \<le> q" "q < 32" "m < 64" "a = 192 + q" "b1 = 128 + m"
      using 2 b(2) by (auto simp: q_def m_def cont_def)
    have c: "128 \<le> c" "c < 2048" using qm by (simp_all add: c_def)
    have "c div 64 = q" "c mod 64 = m" unfolding c_def using qm(3) by (rule digits_div_mod)+
    then have "utf8_enc1 c = [a, b1]" using c qm by (simp add: utf8_enc1_def)
    moreover have "scalar c" using c by (simp add: scalar_def)
    ultimately show ?thesis using b by (auto simp: c_def q_def m_def)
  next
    case 3
    with assms obtain b1 b2 r t' where b: "bs = b1 # b2 # r" "cont b1" "cont b2"
      "a = 224 \<longrightarrow> 160 \<le> b1" "a = 237 \<longrightarrow> b1 < 160" "utf8_dec r = Some t'"
      "t = ((a - 224) * 4096 + (b1 - 128) * 64 + (b2 - 128)) # t'"
      by (auto split: list.splits if_splits)
    define q where "q = a - 224"
    define m where "m = b1 - 128"
    define n where "n = b2 - 128"
    define d where "d = q * 64 + m"
    define c where "c = d * 64 + n"
    have qm: "q < 16" "m < 64" "n < 64" "a = 224 + q" "b1 = 128 + m" "b2 = 128 + n"
      "q = 0 \<longrightarrow> 32 \<le> m" "q = 13 \<longrightarrow> m < 32"
      using 3 b(2-5) by (auto simp: q_def m_def n_def cont_def)
    have ce: "c = q * 4096 + m * 64 + n" by (simp add: c_def d_def)
    have c1: "2048 \<le> c"
    proof (cases "q = 0")
      case True
      with qm(7) show ?thesis unfolding ce by linarith
    next
      case False
      then show ?thesis unfolding ce by linarith
    qed
    have c2: "c < 65536" using qm(1,2,3) unfolding ce by linarith
    have c3: "\<not> (55296 \<le> c \<and> c < 57344)"
    proof (cases "q = 13")
      case True
      with qm(8) qm(3) show ?thesis unfolding ce by linarith
    next
      case False
      then consider "q \<le> 12" | "14 \<le> q" by linarith
      then show ?thesis using qm(2,3) unfolding ce by cases linarith+
    qed
    note c = c1 c2 c3
    have "c div 64 = d" "c mod 64 = n" unfolding c_def using qm(3) by (rule digits_div_mod)+
    moreover have "d div 64 = q" "d mod 64 = m" unfolding d_def using qm(2) by (rule digits_div_mod)+
    ultimately have "utf8_enc1 c = [a, b1, b2]"
      using c qm by (simp add: utf8_enc1_def div_4096)
    moreover have "scalar c" using c by (simp add: scalar_def)
    moreover have "t = c # t'" using b(7) by (simp add: c_def d_def q_def m_def n_def)
    ultimately show ?thesis using b(1,6) by auto
  next
    case 4
    with assms obtain b1 b2 b3 r t' where b: "bs = b1 # b2 # b3 # r" "cont b1" "cont b2" "cont b3"
      "a = 240 \<longrightarrow> 144 \<le> b1" "a = 244 \<longrightarrow> b1 < 144" "utf8_dec r = Some t'"
      "t = ((a - 240) * 262144 + (b1 - 128) * 4096 + (b2 - 128) * 64 + (b3 - 128)) # t'"
      by (auto split: list.splits if_splits)
    define q where "q = a - 240"
    define m where "m = b1 - 128"
    define n where "n = b2 - 128"
    define k where "k = b3 - 128"
    define d2 where "d2 = q * 64 + m"
    define d where "d = d2 * 64 + n"
    define c where "c = d * 64 + k"
    have qm: "q < 5" "m < 64" "n < 64" "k < 64" "a = 240 + q" "b1 = 128 + m" "b2 = 128 + n"
      "b3 = 128 + k" "q = 0 \<longrightarrow> 16 \<le> m" "q = 4 \<longrightarrow> m < 16"
      using 4 b(2-6) by (auto simp: q_def m_def n_def k_def cont_def)
    have ce: "c = q * 262144 + m * 4096 + n * 64 + k" by (simp add: c_def d_def d2_def)
    have c1: "65536 \<le> c"
    proof (cases "q = 0")
      case True
      with qm(9) show ?thesis unfolding ce by linarith
    next
      case False
      then show ?thesis unfolding ce by linarith
    qed
    have c2: "c < 1114112"
    proof (cases "q = 4")
      case True
      with qm(10) qm(3,4) show ?thesis unfolding ce by linarith
    next
      case False
      with qm(1) have "q \<le> 3" by linarith
      then show ?thesis using qm(2,3,4) unfolding ce by linarith
    qed
    note c = c1 c2
    have "c div 64 = d" "c mod 64 = k" unfolding c_def using qm(4) by (rule digits_div_mod)+
    moreover have "d div 64 = d2" "d mod 64 = n" unfolding d_def using qm(3) by (rule digits_div_mod)+
    moreover have "d2 div 64 = q" "d2 mod 64 = m" unfolding d2_def using qm(2) by (rule digits_div_mod)+
    ultimately have "utf8_enc1 c = [a, b1, b2, b3]"
      using c qm by (simp add: utf8_enc1_def div_4096 div_262144)
    moreover have "scalar c" using c by (simp add: scalar_def)
    moreover have "t = c # t'" using b(8) by (simp add: c_def d_def d2_def q_def m_def n_def k_def)
    ultimately show ?thesis using b(1,7) by auto
  next
    case 5
    with assms show ?thesis by simp
  next
    case 6
    with assms show ?thesis by simp
  qed
qed

lemma utf8_enc1_nonempty: "utf8_enc1 c \<noteq> []"
  by (simp add: utf8_enc1_def)

lemma utf8_dec_sound:
  "utf8_dec ns = Some t \<Longrightarrow> list_all scalar t \<and> concat (map utf8_enc1 t) = ns"
proof (induction ns arbitrary: t rule: length_induct)
  case (1 ns)
  show ?case
  proof (cases ns)
    case Nil
    with 1(2) show ?thesis by simp
  next
    case (Cons a bs)
    with 1(2) utf8_dec_step[of a bs t] obtain c t' r where
      s: "t = c # t'" "scalar c" "a # bs = utf8_enc1 c @ r" "utf8_dec r = Some t'" by blast
    have "length r < length ns" using s(3) Cons utf8_enc1_nonempty[of c]
      by (metis length_append length_greater_0_conv less_add_same_cancel2)
    with 1(1) s(4) have "list_all scalar t' \<and> concat (map utf8_enc1 t') = r" by blast
    with s Cons show ?thesis by simp
  qed
qed

lemma utf8_dec_complete:
  "list_all scalar t \<Longrightarrow> utf8_dec (concat (map utf8_enc1 t)) = Some t"
  by (induction t) (simp_all add: utf8_dec_enc1)

lemma utf8_enc1_bytes: "scalar c \<Longrightarrow> \<forall>b\<in>set (utf8_enc1 c). b < 256"
proof -
  assume "scalar c"
  then have c: "c < 1114112" by (simp add: scalar_def)
  obtain d0 r0 where d0: "c = d0 * 64 + r0" "r0 < 64" "c div 64 = d0" "c mod 64 = r0"
    by (rule base64_digits)
  obtain d1 r1 where d1: "d0 = d1 * 64 + r1" "r1 < 64" "d0 div 64 = d1" "d0 mod 64 = r1"
    by (rule base64_digits)
  obtain d2 r2 where d2: "d1 = d2 * 64 + r2" "r2 < 64" "d1 div 64 = d2" "d1 mod 64 = r2"
    by (rule base64_digits)
  have "c < 2048 \<longrightarrow> d0 < 32" "c < 65536 \<longrightarrow> d1 < 16" "d2 < 5"
    using c d0(1,2) d1(1,2) d2(1,2) by auto
  then show ?thesis
    using d0 d1 d2 by (auto simp: utf8_enc1_def div_4096 div_262144)
qed

lemma of_char_char_of_bytes:
  assumes "\<forall>b\<in>set ns. b < (256::nat)"
  shows "map of_char (map char_of ns :: string) = ns"
  using assms by (induction ns) simp_all

lemma utf8_decode_enc:
  assumes "list_all scalar t"
  shows "utf8_decode (utf8_enc t) = Some t"
proof -
  have "\<forall>b\<in>set (concat (map utf8_enc1 t)). b < 256"
    using assms utf8_enc1_bytes by (auto simp: list_all_iff)
  then have "map of_char (utf8_enc t) = concat (map utf8_enc1 t)"
    unfolding utf8_enc_def by (rule of_char_char_of_bytes)
  then show ?thesis using utf8_dec_complete[OF assms] by (simp add: utf8_decode_def)
qed

lemma utf8_enc_decode:
  assumes "utf8_decode raw = Some t"
  shows "list_all scalar t" "utf8_enc t = raw"
proof -
  from assms utf8_dec_sound[of "map of_char raw" t]
  have s: "list_all scalar t" "concat (map utf8_enc1 t) = map of_char raw"
    by (simp_all add: utf8_decode_def)
  show "list_all scalar t" by (rule s(1))
  show "utf8_enc t = raw" by (simp add: utf8_enc_def s(2) comp_def)
qed

section \<open>\<^verbatim>\<open>str.find\<close> returns the first occurrence\<close>

lemma find_at_neg:
  "(find_at sub xs k = - 1) = (\<forall>j\<le>length xs. \<not> prefix sub (drop j xs))"
proof (induction xs arbitrary: k)
  case Nil
  show ?case by simp
next
  case (Cons x xs)
  show ?case
  proof (cases "prefix sub (x # xs)")
    case True
    then have "\<exists>j\<le>length (x # xs). prefix sub (drop j (x # xs))"
      by (intro exI[of _ 0]) simp
    with True show ?thesis by simp
  next
    case False
    have "(\<forall>j\<le>length (x # xs). \<not> prefix sub (drop j (x # xs)))
          = (\<forall>j\<le>length xs. \<not> prefix sub (drop j xs))"
    proof
      assume a: "\<forall>j\<le>length (x # xs). \<not> prefix sub (drop j (x # xs))"
      show "\<forall>j\<le>length xs. \<not> prefix sub (drop j xs)"
      proof (intro allI impI)
        fix j assume "j \<le> length xs"
        with a have "\<not> prefix sub (drop (Suc j) (x # xs))" by (metis Suc_le_mono length_Cons) 
        then show "\<not> prefix sub (drop j xs)" by simp
      qed
    next
      assume a: "\<forall>j\<le>length xs. \<not> prefix sub (drop j xs)"
      show "\<forall>j\<le>length (x # xs). \<not> prefix sub (drop j (x # xs))"
      proof (intro allI impI)
        fix j assume j: "j \<le> length (x # xs)"
        show "\<not> prefix sub (drop j (x # xs))"
        proof (cases j)
          case 0
          with False show ?thesis by simp
        next
          case (Suc j')
          with j a show ?thesis by simp
        qed
      qed
    qed
    with False Cons.IH[of "Suc k"] show ?thesis by simp
  qed
qed

lemma find_at_pos:
  "(find_at sub xs k = int m) =
   (k \<le> m \<and> m - k \<le> length xs \<and> prefix sub (drop (m - k) xs)
    \<and> (\<forall>j<m - k. \<not> prefix sub (drop j xs)))"
proof (induction xs arbitrary: k)
  case Nil
  show ?case by auto
next
  case (Cons x xs)
  show ?case
  proof (cases "prefix sub (x # xs)")
    case True
    have "(k = m) = (k \<le> m \<and> m - k \<le> length (x # xs) \<and> prefix sub (drop (m - k) (x # xs))
       \<and> (\<forall>j<m - k. \<not> prefix sub (drop j (x # xs))))" (is "_ = ?R")
    proof
      assume "k = m" with True show ?R by simp
    next
      assume r: ?R
      show "k = m"
      proof (rule ccontr)
        assume "k \<noteq> m"
        with r have "0 < m - k" by simp
        with r have "\<not> prefix sub (drop 0 (x # xs))" by blast
        with True show False by simp
      qed
    qed
    with True show ?thesis by simp
  next
    case False
    have "(Suc k \<le> m \<and> m - Suc k \<le> length xs \<and> prefix sub (drop (m - Suc k) xs)
             \<and> (\<forall>j<m - Suc k. \<not> prefix sub (drop j xs)))
        = (k \<le> m \<and> m - k \<le> length (x # xs) \<and> prefix sub (drop (m - k) (x # xs))
             \<and> (\<forall>j<m - k. \<not> prefix sub (drop j (x # xs))))" (is "?L = ?R")
    proof
      assume l: ?L
      then obtain d where d: "m - k = Suc d" "m - Suc k = d" 
        by (metis Suc_diff_Suc Suc_le_lessD)
      have "\<And>j. j < Suc d \<Longrightarrow> \<not> prefix sub (drop j (x # xs))"
      proof -
        fix j assume "j < Suc d"
        then show "\<not> prefix sub (drop j (x # xs))"
          using False l d by (cases j) auto
      qed
      with l d show ?R by auto
    next
      assume r: ?R
      have "m \<noteq> k" using r False by auto
      with r obtain d where d: "m - k = Suc d" "m - Suc k = d" "Suc k \<le> m"
        by (metis Suc_diff_Suc Suc_leI le_neq_implies_less)
      have "\<And>j. j < d \<Longrightarrow> \<not> prefix sub (drop j xs)"
      proof -
        fix j assume "j < d"
        then have "Suc j < m - k" using d by simp
        with r have "\<not> prefix sub (drop (Suc j) (x # xs))" by blast
        then show "\<not> prefix sub (drop j xs)" by simp
      qed
      with r d show ?L by auto
    qed
    with False Cons.IH[of "Suc k"] show ?thesis by simp
  qed
qed

lemma py_find_neg:
  assumes "st \<le> length s"
  shows "(py_find s sub (int st) = - 1) = (\<forall>j\<ge>st. \<not> occurs_at sub s j)"
proof -
  have "(\<forall>j\<le>length s - st. \<not> prefix sub (drop j (drop st s))) = (\<forall>j\<ge>st. \<not> occurs_at sub s j)"
  proof
    assume a: "\<forall>j\<le>length s - st. \<not> prefix sub (drop j (drop st s))"
    show "\<forall>j\<ge>st. \<not> occurs_at sub s j"
    proof (intro allI impI)
      fix j assume j: "st \<le> j"
      show "\<not> occurs_at sub s j"
      proof
        assume o: "occurs_at sub s j"
        then have "j - st \<le> length s - st" using j unfolding occurs_at_def by arith
        with a have "\<not> prefix sub (drop (j - st) (drop st s))" by blast
        with o j show False by (simp add: occurs_at_def)
      qed
    qed
  next
    assume a: "\<forall>j\<ge>st. \<not> occurs_at sub s j"
    show "\<forall>j\<le>length s - st. \<not> prefix sub (drop j (drop st s))"
    proof (intro allI impI)
      fix j assume j: "j \<le> length s - st"
      from a have "\<not> occurs_at sub s (j + st)" by simp
      with j assms show "\<not> prefix sub (drop j (drop st s))"
        by (simp add: occurs_at_def)
    qed
  qed
  with assms show ?thesis by (simp add: py_find_def find_at_neg)
qed

lemma py_find_pos:
  assumes "st \<le> length s"
  shows "(py_find s sub (int st) = int m) =
         (st \<le> m \<and> occurs_at sub s m \<and> (\<forall>j. st \<le> j \<and> j < m \<longrightarrow> \<not> occurs_at sub s j))"
proof -
  have "(st \<le> m \<and> m - st \<le> length (drop st s) \<and> prefix sub (drop (m - st) (drop st s))
          \<and> (\<forall>j<m - st. \<not> prefix sub (drop j (drop st s))))
      = (st \<le> m \<and> occurs_at sub s m \<and> (\<forall>j. st \<le> j \<and> j < m \<longrightarrow> \<not> occurs_at sub s j))"
    (is "?L = ?R")
  proof
    assume l: ?L
    have "\<And>j. st \<le> j \<Longrightarrow> j < m \<Longrightarrow> \<not> occurs_at sub s j"
    proof -
      fix j assume j: "st \<le> j" "j < m"
      then have "j - st < m - st" by simp
      with l have "\<not> prefix sub (drop (j - st) (drop st s))" by blast
      with j show "\<not> occurs_at sub s j" by (simp add: occurs_at_def)
    qed
    with l assms show ?R by (auto simp: occurs_at_def)
  next
    assume r: ?R
    have "\<And>j. j < m - st \<Longrightarrow> \<not> prefix sub (drop j (drop st s))"
    proof -
      fix j assume j: "j < m - st"
      then have "st \<le> j + st" "j + st < m" by auto
      with r have "\<not> occurs_at sub s (j + st)" by blast
      moreover have "j + st \<le> length s" using j r unfolding occurs_at_def by arith
      ultimately show "\<not> prefix sub (drop j (drop st s))" by (simp add: occurs_at_def)
    qed
    with r assms show ?L by (auto simp: occurs_at_def)
  qed
  with assms show ?thesis by (simp add: py_find_def find_at_pos)
qed


lemma first_occurrence_iff:
  "first_occurrence sub s st m =
     (st \<le> m \<and> occurs_at sub s m \<and> (\<forall>j. st \<le> j \<and> j < m \<longrightarrow> \<not> occurs_at sub s j))"
  by (auto simp: first_occurrence_def list_all_iff)

lemma absent_from_iff:
  "absent_from sub s st = (\<forall>j\<ge>st. \<not> occurs_at sub s j)"
proof -
  have "\<And>j. length s < j \<Longrightarrow> \<not> occurs_at sub s j" by (simp add: occurs_at_def)
  then show ?thesis
    unfolding absent_from_def list_all_iff
    by (metis atLeastLessThan_iff not_less_eq set_upt)
qed

lemma first_occurrence_find:
  assumes "first_occurrence sub s st m"
  shows "py_find s sub (int st) = int m"
proof -
  from assms have "st \<le> length s" by (simp add: first_occurrence_def occurs_at_def)
  with assms show ?thesis by (simp add: py_find_pos first_occurrence_iff)
qed

lemma absent_from_find:
  assumes "absent_from sub s st" "st \<le> length s"
  shows "py_find s sub (int st) = - 1"
  using assms by (simp add: py_find_neg absent_from_iff)

lemma occurs_at_nth:
  assumes "occurs_at sub s i" "k < length sub"
  shows "i + k < length s \<and> s ! (i + k) = sub ! k"
proof -
  from assms(1) have p: "prefix sub (drop i s)" and i: "i \<le> length s"
    by (simp_all add: occurs_at_def)
  from p have "length sub \<le> length (drop i s)" by (rule prefix_length_le)
  with assms(2) have lt: "i + k < length s" by simp
  from p obtain r where "drop i s = sub @ r" by (auto simp: prefix_def)
  then have "drop i s ! k = sub ! k" using assms(2) by (simp add: nth_append)
  with i lt show ?thesis by simp
qed

lemma help_begin_text_length: "length help_begin_text = 18"
  by (simp add: help_begin_text_def str_def)

lemma help_end_text_length: "length help_end_text = 16"
  by (simp add: help_end_text_def str_def)

lemma begin_end_apart:
  assumes "occurs_at help_begin_text s b" "occurs_at help_end_text s e" "b \<le> e"
  shows "b + length help_begin_text \<le> e"
proof (rule ccontr)
  assume "\<not> b + length help_begin_text \<le> e"
  then have k: "e - b < 18" by (simp add: help_begin_text_length)
  have e0: "s ! e = 46"
    using occurs_at_nth[OF assms(2), of 0] by (simp add: help_end_text_def str_def)
  have e1: "s ! (e + 1) = 46"
    using occurs_at_nth[OF assms(2), of 1] by (simp add: help_end_text_def str_def)
  have e3: "s ! (e + 3) = 69"
    using occurs_at_nth[OF assms(2), of 3] by (simp add: help_end_text_def str_def)
  have b2: "s ! (b + 2) = 32"
    using occurs_at_nth[OF assms(1), of 2] by (simp add: help_begin_text_def str_def)
  have b3: "s ! (b + 3) = 66"
    using occurs_at_nth[OF assms(1), of 3] by (simp add: help_begin_text_def str_def)
  have nodot: "46 \<notin> set (drop 2 help_begin_text)"
    by (simp add: help_begin_text_def str_def)
  consider "e = b" | "e = b + 1" | "b + 2 \<le> e" using assms(3) by linarith
  then show False
  proof cases
    case 1
    with e3 b3 show False by simp
  next
    case 2
    with e1 b2 show False by simp
  next
    case 3
    then have kk: "e - b < length help_begin_text" "2 \<le> e - b"
      using k by (simp_all add: help_begin_text_length)
    have "s ! (b + (e - b)) = help_begin_text ! (e - b)"
      using occurs_at_nth[OF assms(1) kk(1)] by simp
    with e0 assms(3) have "help_begin_text ! (e - b) = 46" by simp
    moreover have "help_begin_text ! (e - b) = drop 2 help_begin_text ! (e - b - 2)"
    proof -
      have "2 + (e - b - 2) = e - b" using kk by simp
      moreover have "drop 2 help_begin_text ! (e - b - 2) = help_begin_text ! (2 + (e - b - 2))"
        by (rule nth_drop) (simp add: help_begin_text_length)
      ultimately show ?thesis by simp
    qed
    moreover have "e - b - 2 < length (drop 2 help_begin_text)" using kk by simp
    ultimately have "46 \<in> set (drop 2 help_begin_text)" by (metis nth_mem)
    with nodot show False by simp
  qed
qed

lemma splice_point_in_range:
  assumes "first_occurrence help_begin_text data 0 b"
    and "first_occurrence help_end_text data b e"
  shows "b + length help_begin_text \<le> e" "e + length help_end_text \<le> length data"
    "b + length help_begin_text + 1 \<le> length data"
proof -
  from assms have ob: "occurs_at help_begin_text data b" and oe: "occurs_at help_end_text data e"
    and be: "b \<le> e" by (simp_all add: first_occurrence_def)
  show 1: "b + length help_begin_text \<le> e" by (rule begin_end_apart[OF ob oe be])
  from oe have "prefix help_end_text (drop e data)" "e \<le> length data"
    by (simp_all add: occurs_at_def)
  then have "length help_end_text \<le> length data - e" using prefix_length_le by fastforce
  with \<open>e \<le> length data\<close> show 2: "e + length help_end_text \<le> length data" by simp
  from 1 2 show "b + length help_begin_text + 1 \<le> length data"
    by (simp add: help_end_text_length)
qed

lemma occurs_at_append_left:
  assumes "occurs_at sub s i" "i + length sub \<le> n"
  shows "occurs_at sub (take n s @ r) i"
proof -
  from assms(1) have p: "prefix sub (drop i s)" and i: "i \<le> length s"
    by (simp_all add: occurs_at_def)
  from p obtain t where t: "drop i s = sub @ t" by (auto simp: prefix_def)
  have "take (n - i) (drop i s) = sub @ take (n - i - length sub) t"
    using t assms(2) by simp
  then have "drop i (take n s) = sub @ take (n - i - length sub) t"
    by (simp add: drop_take)
  moreover have il: "i \<le> length (take n s)" using i assms(2) by simp
  ultimately have "drop i (take n s @ r) = sub @ (take (n - i - length sub) t @ r)"
    by simp
  moreover from il have "i \<le> length (take n s @ r)" by (simp add: min_def)
  ultimately show ?thesis unfolding occurs_at_def prefix_def by blast
qed

lemma occurs_at_append_right:
  assumes "occurs_at sub s i"
  shows "occurs_at sub (p @ s) (length p + i)"
  using assms by (simp add: occurs_at_def)

lemma occurs_at_drop:
  assumes "occurs_at sub s i" "e \<le> i"
  shows "occurs_at sub (drop e s) (i - e)"
proof -
  from assms have "i - e \<le> length s - e" unfolding occurs_at_def by arith
  with assms show ?thesis by (simp add: occurs_at_def)
qed

section \<open>Lines and indentation\<close>

lemma concat_splitl: "concat (splitl cur s) = cur @ s"
  by (induction cur s rule: splitl.induct) auto

lemma splitl_no_break:
  assumes "\<forall>c\<in>set l. \<not> linebreak c"
  shows "splitl cur (l @ r) = splitl (cur @ l) r"
  using assms
proof (induction l arbitrary: cur)
  case Nil
  show ?case by simp
next
  case (Cons c l)
  then have c: "\<not> linebreak c" and l: "\<forall>c\<in>set l. \<not> linebreak c" by simp_all
  show ?case
  proof (cases "l @ r")
    case Nil
    then show ?thesis by simp
  next
    case (Cons d cs)
    from c have "c \<noteq> 13" by (auto simp: linebreak_def)
    then have "splitl cur (c # d # cs) = splitl (cur @ [c]) (d # cs)" using c by simp
    with Cons Cons.IH[OF l, of "cur @ [c]"] show ?thesis by simp
  qed
qed

lemma splitl_append:
  assumes "a \<noteq> []" "linebreak (last a)" "\<not> (last a = 13 \<and> (\<exists>r. b = 10 # r))"
  shows "splitl cur (a @ b) = splitl cur a @ splitl [] b"
  using assms
proof (induction cur a rule: splitl.induct)
  case (1 cur)
  then show ?case by simp
next
  case (2 cur c)
  then show ?case by (cases b) auto
next
  case (3 cur c d cs)
  show ?case
  proof (cases "c = 13 \<and> d = 10")
    case True
    show ?thesis
    proof (cases cs)
      case Nil
      with True show ?thesis by simp
    next
      case (Cons x xs)
      with 3 True show ?thesis by simp
    qed
  next
    case False
    with 3 show ?thesis by auto
  qed
qed


lemma splitl_line:
  assumes "\<forall>c\<in>set body. \<not> linebreak c"
  shows "splitl [] (body @ [t]) = [body @ [t]]"
    and "splitl [] (body @ [13, 10]) = [body @ [13, 10]]"
    and "body \<noteq> [] \<Longrightarrow> splitl [] body = [body]"
  using splitl_no_break[OF assms, of "[]" "[t]"] splitl_no_break[OF assms, of "[]" "[13, 10]"]
    splitl_no_break[OF assms, of "[]" "[]"]
  by simp_all

lemma indent_line_cases:
  "indent_line pfx l = l \<or> indent_line pfx l = pfx @ l"
  by (simp add: indent_line_def)

lemma splitl_indent_line:
  assumes "\<forall>c\<in>set pfx. \<not> linebreak c" "\<forall>c\<in>set cur. \<not> linebreak c"
  shows "splitl [] (indent_line pfx (cur @ [t])) = [indent_line pfx (cur @ [t])]"
    and "splitl [] (indent_line pfx (cur @ [13, 10])) = [indent_line pfx (cur @ [13, 10])]"
    and "cur \<noteq> [] \<Longrightarrow> splitl [] (indent_line pfx cur) = [indent_line pfx cur]"
proof -
  have b: "\<forall>c\<in>set (pfx @ cur). \<not> linebreak c" using assms by auto
  show "splitl [] (indent_line pfx (cur @ [t])) = [indent_line pfx (cur @ [t])]"
    using indent_line_cases[of pfx "cur @ [t]"] splitl_line(1)[OF assms(2), of t]
      splitl_line(1)[OF b, of t] by auto
  show "splitl [] (indent_line pfx (cur @ [13, 10])) = [indent_line pfx (cur @ [13, 10])]"
    using indent_line_cases[of pfx "cur @ [13, 10]"] splitl_line(2)[OF assms(2)]
      splitl_line(2)[OF b] by auto
  show "cur \<noteq> [] \<Longrightarrow> splitl [] (indent_line pfx cur) = [indent_line pfx cur]"
    using indent_line_cases[of pfx cur] splitl_line(3)[OF assms(2)]
      splitl_line(3)[OF b] by auto
qed

lemma indent_line_last:
  assumes "l \<noteq> []"
  shows "indent_line pfx l \<noteq> []" "last (indent_line pfx l) = last l"
  using assms indent_line_cases[of pfx l] by auto

lemma splitl_hd:
  assumes "cur @ s \<noteq> []"
  shows "\<exists>l ls. splitl cur s = l # ls \<and> l \<noteq> [] \<and> hd l = hd (cur @ s)"
  using assms
proof (induction cur s rule: splitl.induct)
  case (1 cur)
  then show ?case by simp
next
  case (2 cur c)
  then show ?case by (simp add: hd_append)
next
  case (3 cur c d cs)
  show ?case
  proof (cases "(c = 13 \<and> d = 10) \<or> linebreak c")
    case True
    then show ?thesis by (auto simp: hd_append)
  next
    case False
    with 3(3)[of] have "\<exists>l ls. splitl (cur @ [c]) (d # cs) = l # ls \<and> l \<noteq> []
        \<and> hd l = hd ((cur @ [c]) @ d # cs)" by simp
    with False show ?thesis by (auto simp: hd_append)
  qed
qed

lemma indented_no_newline_first:
  assumes "\<forall>c\<in>set pfx. \<not> linebreak c" "d \<noteq> 10"
  shows "\<not> (\<exists>r. concat (map (indent_line pfx) (splitl [] (d # cs))) = 10 # r)"
proof
  assume "\<exists>r. concat (map (indent_line pfx) (splitl [] (d # cs))) = 10 # r"
  then obtain r where r: "concat (map (indent_line pfx) (splitl [] (d # cs))) = 10 # r" ..
  from splitl_hd[of "[]" "d # cs"] obtain l ls
    where l: "splitl [] (d # cs) = l # ls" "l \<noteq> []" "hd l = d" by auto
  from r l have "hd (indent_line pfx l @ concat (map (indent_line pfx) ls)) = 10" by simp
  then have "hd (indent_line pfx l) = 10" using indent_line_last(1)[OF l(2), of pfx] by simp
  moreover have "linebreak 10" by (simp add: linebreak_def)
  ultimately show False
    using indent_line_cases[of pfx l] l(2,3) assms
    by (cases pfx) (auto simp: hd_append)
qed

lemma splitl_indented:
  assumes "\<forall>c\<in>set pfx. \<not> linebreak c" "\<forall>c\<in>set cur. \<not> linebreak c"
  shows "splitl [] (concat (map (indent_line pfx) (splitl cur s)))
         = map (indent_line pfx) (splitl cur s)"
  using assms(2)
proof (induction cur s rule: splitl.induct)
  case (1 cur)
  then show ?case using splitl_indent_line(3)[OF assms(1), of cur] by simp
next
  case (2 cur c)
  then show ?case using splitl_indent_line(1)[OF assms(1), of cur c] by simp
next
  case (3 cur c d cs)
  note nb = \<open>\<forall>c\<in>set cur. \<not> linebreak c\<close>
  show ?case
  proof (cases "c = 13 \<and> d = 10")
    case True
    let ?a = "indent_line pfx (cur @ [13, 10])"
    let ?X = "concat (map (indent_line pfx) (splitl [] cs))"
    have a: "?a \<noteq> []" "last ?a = 10"
      using indent_line_last[of "cur @ [13, 10]" pfx] by simp_all
    have "splitl [] (?a @ ?X) = splitl [] ?a @ splitl [] ?X"
      by (rule splitl_append) (simp_all add: a linebreak_def)
    also have "splitl [] ?a = [?a]" by (rule splitl_indent_line(2)[OF assms(1) nb])
    also have "splitl [] ?X = map (indent_line pfx) (splitl [] cs)"
      using 3(1)[OF True] by simp
    finally show ?thesis using True by simp
  next
    case False
    show ?thesis
    proof (cases "linebreak c")
      case True
      let ?a = "indent_line pfx (cur @ [c])"
      let ?X = "concat (map (indent_line pfx) (splitl [] (d # cs)))"
      have a: "?a \<noteq> []" "last ?a = c"
        using indent_line_last[of "cur @ [c]" pfx] by simp_all
      have "\<not> (c = 13 \<and> (\<exists>r. ?X = 10 # r))"
        using False indented_no_newline_first[OF assms(1), of d cs] by blast
      then have "splitl [] (?a @ ?X) = splitl [] ?a @ splitl [] ?X"
        by (intro splitl_append) (simp_all add: a True)
      also have "splitl [] ?a = [?a]" by (rule splitl_indent_line(1)[OF assms(1) nb])
      also have "splitl [] ?X = map (indent_line pfx) (splitl [] (d # cs))"
        using 3(2)[OF False True] by simp
      finally have "splitl [] (?a @ ?X) = ?a # map (indent_line pfx) (splitl [] (d # cs))"
        by simp
      moreover have "splitl cur (c # d # cs) = (cur @ [c]) # splitl [] (d # cs)"
        using False True by auto
      ultimately show ?thesis by simp
    next
      case nl: False
      have "\<forall>x\<in>set (cur @ [c]). \<not> linebreak x" using nb nl by simp
      moreover have "splitl cur (c # d # cs) = splitl (cur @ [c]) (d # cs)"
        using False nl by auto
      ultimately show ?thesis using 3(3)[OF False nl] by simp
    qed
  qed
qed

lemma rstrip_all_space:
  assumes "\<forall>c\<in>set txt. isspace c"
  shows "rstrip txt = []"
  using assms by (simp add: rstrip_def)

lemma rstrip_decomp:
  "\<exists>ws. txt = rstrip txt @ ws \<and> (\<forall>c\<in>set ws. isspace c)
        \<and> (rstrip txt = [] \<or> \<not> isspace (last (rstrip txt)))"
proof -
  let ?ws = "rev (takeWhile isspace (rev txt))"
  have "rev (takeWhile isspace (rev txt) @ dropWhile isspace (rev txt)) = txt"
    by (simp only: takeWhile_dropWhile_id rev_rev_ident)
  then have "rev (dropWhile isspace (rev txt)) @ ?ws = txt"
    by (simp only: rev_append)
  then have 1: "txt = rstrip txt @ ?ws" by (simp only: rstrip_def)
  have 2: "\<forall>c\<in>set ?ws. isspace c" by (auto dest: set_takeWhileD)
  have 3: "rstrip txt = [] \<or> \<not> isspace (last (rstrip txt))"
  proof (cases "dropWhile isspace (rev txt)")
    case Nil
    then show ?thesis by (simp add: rstrip_def)
  next
    case (Cons x xs)
    then have "\<not> isspace (hd (dropWhile isspace (rev txt)))"
      by (metis hd_dropWhile list.distinct(1))
    then show ?thesis using Cons by (simp add: rstrip_def last_rev)
  qed
  from 1 2 3 show ?thesis by blast
qed

lemma strip_empty_iff: "(strip l = []) = (\<forall>c\<in>set l. isspace c)"
proof
  assume "strip l = []"
  then have a: "\<forall>c\<in>set (rstrip l). isspace c" by (simp add: strip_def)
  from rstrip_decomp[of l] obtain ws where ws: "l = rstrip l @ ws" "\<forall>c\<in>set ws. isspace c"
    by blast
  have "\<forall>c\<in>set (rstrip l @ ws). isspace c" using a ws(2) by auto
  with ws(1) show "\<forall>c\<in>set l. isspace c" by simp
next
  assume "\<forall>c\<in>set l. isspace c"
  then have "rstrip l = []" by (rule rstrip_all_space)
  then show "strip l = []" by (simp add: strip_def)
qed

lemma indent_line_iff:
  "indent_line pfx l = (if \<forall>c\<in>set l. isspace c then l else pfx @ l)"
  by (simp add: indent_line_def strip_empty_iff)

lemma label_text_lines: "label_text = [10] @ label_line @ [10]"
  by (simp add: label_text_def label_line_def str_def)

lemma splitl_label_line: "splitl [] (label_line @ r) = label_line # splitl [] r"
proof -
  have "label_line \<noteq> []" "linebreak (last label_line)" "last label_line \<noteq> 13"
    by (simp_all add: label_line_def str_def linebreak_def)
  then have "splitl [] (label_line @ r) = splitl [] label_line @ splitl [] r"
    by (intro splitl_append) simp_all
  moreover have "splitl [] label_line = [label_line]"
    by (simp add: label_line_def str_def linebreak_def)
  ultimately show ?thesis by simp
qed

lemma three_spaces_no_break: "\<forall>c\<in>set (str ''   ''). \<not> linebreak c"
  by (simp add: str_def linebreak_def)

lemma indented_help_ends_with_newline:
  "\<exists>body. textwrap_indent (r @ str ''\<newline>\<newline>'') (str ''   '') = body @ [10]"
proof -
  have "splitl [] ((r @ [10]) @ [10]) = splitl [] (r @ [10]) @ splitl [] [10]"
    by (rule splitl_append) (simp_all add: linebreak_def)
  then have "splitlines_keepends (r @ str ''\<newline>\<newline>'') = splitl [] (r @ [10]) @ [[10]]"
    by (simp add: splitlines_keepends_def str_def)
  moreover have "indent_line (str ''   '') [10] = [10]"
    by (simp add: indent_line_iff isspace_def)
  ultimately show ?thesis by (simp add: textwrap_indent_def)
qed

lemma lines_of_splice:
  "splitlines_keepends (p @ format_help txt @ s)
   = splitlines_keepends (p @ [10]) @ [label_line, [10]]
     @ map (indent_line (str ''   '')) (splitlines_keepends (rstrip txt @ str ''\<newline>\<newline>''))
     @ splitlines_keepends s"
proof -
  let ?H = "rstrip txt @ str ''\<newline>\<newline>''"
  let ?I = "textwrap_indent ?H (str ''   '')"
  from indented_help_ends_with_newline[of "rstrip txt"] obtain body where body: "?I = body @ [10]" ..
  have I: "splitl [] ?I = map (indent_line (str ''   '')) (splitl [] ?H)"
    unfolding textwrap_indent_def splitlines_keepends_def
    by (rule splitl_indented[OF three_spaces_no_break]) simp
  have "p @ format_help txt @ s = (p @ [10]) @ label_line @ [10] @ ?I @ s"
    by (simp add: format_help_def label_text_lines)
  then have "splitl [] (p @ format_help txt @ s) = splitl [] ((p @ [10]) @ label_line @ [10] @ ?I @ s)"
    by simp
  also have "\<dots> = splitl [] (p @ [10]) @ splitl [] (label_line @ [10] @ ?I @ s)"
    by (rule splitl_append) (simp_all add: linebreak_def)
  also have "splitl [] (label_line @ [10] @ ?I @ s) = label_line # splitl [] ([10] @ ?I @ s)"
    by (rule splitl_label_line)
  also have "splitl [] ([10] @ ?I @ s) = splitl [] [10] @ splitl [] (?I @ s)"
    by (rule splitl_append) (simp_all add: linebreak_def)
  also have "splitl [] (?I @ s) = splitl [] ?I @ splitl [] s"
    by (rule splitl_append) (simp_all add: body linebreak_def)
  finally show ?thesis by (simp add: splitlines_keepends_def I)
qed

lemma format_help_ends:
  "\<exists>body. format_help txt = 10 # body @ [10]"
proof -
  from indented_help_ends_with_newline[of "rstrip txt"] obtain body
    where "textwrap_indent (rstrip txt @ str ''\<newline>\<newline>'') (str ''   '') = body @ [10]" ..
  then have "format_help txt = 10 # (label_line @ [10] @ body) @ [10]"
    by (simp add: format_help_def label_text_lines)
  then show ?thesis ..
qed

section \<open>Where a marker can occur in a text put together from parts\<close>

lemma prefix_append_short:
  assumes "prefix sub (x @ r)" "length sub \<le> length x"
  shows "prefix sub x"
  using assms by (auto simp: prefix_append)

lemma occurs_at_sublist: "(\<exists>j. occurs_at m s j) = sublist m s"
proof
  assume "\<exists>j. occurs_at m s j"
  then obtain j t where "j \<le> length s" "drop j s = m @ t"
    by (auto simp: occurs_at_def prefix_def)
  then have "s = take j s @ m @ t" by (metis append_take_drop_id)
  then show "sublist m s" unfolding sublist_def by blast
next
  assume "sublist m s"
  then obtain ps ss where "s = ps @ m @ ss" by (auto simp: sublist_def)
  then have "occurs_at m s (length ps)" by (simp add: occurs_at_def)
  then show "\<exists>j. occurs_at m s j" ..
qed

lemma absent_from_sublist: "absent_from m s 0 = (\<not> sublist m s)"
  by (simp add: absent_from_iff flip: occurs_at_sublist)

lemma occurs_at_within_left:
  assumes "occurs_at sub (take n s @ r) j" "j + length sub \<le> n" "n \<le> length s"
  shows "occurs_at sub s j"
proof -
  have j: "j \<le> n" using assms(2) by simp
  from assms(1) have "prefix sub (drop j (take n s @ r))" by (simp add: occurs_at_def)
  then have "prefix sub (drop j (take n s) @ r)" using j assms(3) by simp
  then have "prefix sub (drop j (take n s))"
    by (rule prefix_append_short) (use assms(2,3) in simp)
  then have "prefix sub (take (n - j) (drop j s))" by (simp add: drop_take)
  then have "prefix sub (drop j s)" by (metis prefix_order.trans take_is_prefix)
  with j assms(3) show ?thesis by (simp add: occurs_at_def)
qed

lemma occurs_at_within_middle:
  assumes "occurs_at sub (p @ q @ r) j" "length p \<le> j" "j + length sub \<le> length p + length q"
  shows "occurs_at sub q (j - length p)"
proof -
  from assms(1) have "prefix sub (drop j (p @ q @ r))" by (simp add: occurs_at_def)
  then have "prefix sub (drop (j - length p) q @ r)" using assms(2,3) by simp
  then have "prefix sub (drop (j - length p) q)"
    by (rule prefix_append_short) (use assms(2,3) in simp)
  moreover have "j - length p \<le> length q" using assms(2,3) by simp
  ultimately show ?thesis by (simp add: occurs_at_def)
qed

lemma occurs_at_covers:
  assumes "occurs_at m s j" "j \<le> i" "i < j + length m"
  shows "s ! i \<in> set m"
proof -
  have k: "i - j < length m" using assms(2,3) by simp
  from occurs_at_nth[OF assms(1) k] assms(2) have "s ! i = m ! (i - j)" by simp
  with k show ?thesis by simp
qed

lemma help_end_text_no_newline: "10 \<notin> set help_end_text"
  by (simp add: help_end_text_def str_def)

lemma sublist_append_last:
  assumes "sublist m (a @ b)" "a \<noteq> [] \<Longrightarrow> last a \<notin> set m"
  shows "sublist m a \<or> sublist m b"
proof -
  from assms(1) consider "sublist m a" | "sublist m b"
    | m1 m2 where "m = m1 @ m2" "suffix m1 a" "prefix m2 b"
    unfolding sublist_append by blast
  then show ?thesis
  proof cases
    case 3
    show ?thesis
    proof (cases "m1 = []")
      case True
      with 3 have "prefix m b" by simp
      then show ?thesis by (auto simp: prefix_def)
    next
      case False
      from 3(2) obtain z where z: "a = z @ m1" by (auto simp: suffix_def)
      with False have "a \<noteq> []" "last a = last m1" by simp_all
      moreover have "last m1 \<in> set m" using False 3(1) by simp
      ultimately show ?thesis using assms(2) by simp
    qed
  qed simp_all
qed

lemma sublist_append_first:
  assumes "sublist m (a @ b)" "b \<noteq> [] \<Longrightarrow> hd b \<notin> set m"
  shows "sublist m a \<or> sublist m b"
proof -
  from assms(1) consider "sublist m a" | "sublist m b"
    | m1 m2 where "m = m1 @ m2" "suffix m1 a" "prefix m2 b"
    unfolding sublist_append by blast
  then show ?thesis
  proof cases
    case 3
    show ?thesis
    proof (cases "m2 = []")
      case True
      with 3 have "suffix m a" by simp
      then show ?thesis by (auto simp: suffix_def)
    next
      case False
      from 3(3) obtain z where z: "b = m2 @ z" by (auto simp: prefix_def)
      with False have "b \<noteq> []" "hd b = hd m2" by simp_all
      moreover have "hd m2 \<in> set m" using False 3(1) by simp
      ultimately show ?thesis using assms(2) by simp
    qed
  qed simp_all
qed

lemma sublist_set: "sublist m a \<Longrightarrow> set m \<subseteq> set a"
  by (auto simp: sublist_def)

lemma sublist_after_prefix:
  assumes "sublist m (pfx @ l)" "m \<noteq> []" "hd m \<notin> set pfx"
  shows "sublist m l"
proof -
  from assms(1) consider "sublist m pfx" | "sublist m l"
    | m1 m2 where "m = m1 @ m2" "suffix m1 pfx" "prefix m2 l"
    unfolding sublist_append by blast
  then show ?thesis
  proof cases
    case 1
    then have "hd m \<in> set pfx" using assms(2) sublist_set by fastforce
    with assms(3) show ?thesis ..
  next
    case 2
    then show ?thesis .
  next
    case 3
    show ?thesis
    proof (cases "m1 = []")
      case True
      with 3 have "prefix m l" by simp
      then show ?thesis by (auto simp: prefix_def)
    next
      case False
      from 3(2) have "set m1 \<subseteq> set pfx" by (auto simp: suffix_def)
      moreover have "hd m = hd m1" "hd m1 \<in> set m1" using False 3(1) by simp_all
      ultimately show ?thesis using assms(3) by auto
    qed
  qed
qed

lemma sublist_indent_line:
  assumes "sublist m (indent_line pfx l)" "m \<noteq> []" "hd m \<notin> set pfx"
  shows "sublist m l"
  using indent_line_cases[of pfx l] assms sublist_after_prefix by metis

lemma sublist_indented:
  assumes "m \<noteq> []" "\<forall>c\<in>set m. \<not> linebreak c" "hd m \<notin> set pfx"
  shows "sublist m (concat (map (indent_line pfx) (splitl cur s))) \<Longrightarrow> sublist m (cur @ s)"
proof (induction cur s rule: splitl.induct)
  case (1 cur)
  then show ?case using sublist_indent_line[OF _ assms(1,3), of cur] by (simp split: if_splits)
next
  case (2 cur c)
  then show ?case using sublist_indent_line[OF _ assms(1,3), of "cur @ [c]"] by simp
next
  case (3 cur c d cs)
  show ?case
  proof (cases "c = 13 \<and> d = 10")
    case True
    let ?a = "indent_line pfx (cur @ [13, 10])"
    let ?X = "concat (map (indent_line pfx) (splitl [] cs))"
    have "linebreak 10" by (simp add: linebreak_def)
    then have "last ?a \<notin> set m"
      using indent_line_last(2)[of "cur @ [13, 10]" pfx] assms(2) by auto
    moreover have "sublist m (?a @ ?X)" using 3(4) True by simp
    ultimately have "sublist m ?a \<or> sublist m ?X" by (intro sublist_append_last) simp_all
    then show ?thesis
    proof
      assume "sublist m ?a"
      then have "sublist m (cur @ [13, 10])" by (rule sublist_indent_line[OF _ assms(1,3)])
      then have "sublist m ((cur @ [13, 10]) @ cs)"
        by (metis sublist_append_rightI sublist_order.order_trans)
      then show ?thesis using True by simp
    next
      assume "sublist m ?X"
      then have "sublist m ([] @ cs)" using 3(1)[OF True] by simp
      then have "sublist m ((cur @ [13, 10]) @ cs)"
        by (metis append_Nil sublist_append_leftI sublist_order.order_trans)
      then show ?thesis using True by simp
    qed
  next
    case False
    show ?thesis
    proof (cases "linebreak c")
      case True
      let ?a = "indent_line pfx (cur @ [c])"
      let ?X = "concat (map (indent_line pfx) (splitl [] (d # cs)))"
      have sp: "splitl cur (c # d # cs) = (cur @ [c]) # splitl [] (d # cs)"
        using False True by auto
      have "last ?a \<notin> set m"
        using indent_line_last(2)[of "cur @ [c]" pfx] assms(2) True by auto
      moreover have "sublist m (?a @ ?X)" using 3(4) sp by simp
      ultimately have "sublist m ?a \<or> sublist m ?X" by (intro sublist_append_last) simp_all
      then show ?thesis
      proof
        assume "sublist m ?a"
        then have "sublist m (cur @ [c])" by (rule sublist_indent_line[OF _ assms(1,3)])
        then have "sublist m ((cur @ [c]) @ d # cs)"
          by (metis sublist_append_rightI sublist_order.order_trans)
        then show ?thesis by simp
      next
        assume "sublist m ?X"
        then have "sublist m ([] @ d # cs)" using 3(2)[OF False True] by simp
        then have "sublist m ((cur @ [c]) @ d # cs)"
          by (metis append_Nil sublist_append_leftI sublist_order.order_trans)
        then show ?thesis by simp
      qed
    next
      case nl: False
      have sp: "splitl cur (c # d # cs) = splitl (cur @ [c]) (d # cs)"
        using False nl by auto
      from 3(3)[OF False nl] 3(4) sp show ?thesis by simp
    qed
  qed
qed

lemma help_end_text_facts:
  "help_end_text \<noteq> []" "\<forall>c\<in>set help_end_text. \<not> linebreak c"
  "hd help_end_text \<notin> set (str ''   '')" "\<not> sublist help_end_text label_text"
proof -
  show "help_end_text \<noteq> []" "\<forall>c\<in>set help_end_text. \<not> linebreak c"
    "hd help_end_text \<notin> set (str ''   '')"
    by (simp_all add: help_end_text_def str_def linebreak_def)
  have "absent_from help_end_text label_text 0"
    by (simp add: absent_from_def occurs_at_def help_end_text_def label_text_def str_def upt_rec)
  then show "\<not> sublist help_end_text label_text" by (simp add: absent_from_sublist)
qed

lemma end_marker_in_block:
  assumes "sublist help_end_text (format_help txt)"
  shows "sublist help_end_text txt"
proof -
  let ?m = help_end_text
  let ?H = "rstrip txt @ str ''\<newline>\<newline>''"
  let ?I = "textwrap_indent ?H (str ''   '')"
  have "last label_text \<notin> set ?m"
    by (simp add: label_text_def help_end_text_def str_def)
  moreover have "sublist ?m (label_text @ ?I)" using assms by (simp add: format_help_def)
  ultimately have "sublist ?m label_text \<or> sublist ?m ?I"
    by (intro sublist_append_last) simp_all
  then have "sublist ?m ?I" using help_end_text_facts(4) by simp
  then have "sublist ?m ([] @ ?H)"
    unfolding textwrap_indent_def splitlines_keepends_def
    by (rule sublist_indented[OF help_end_text_facts(1,2,3)])
  then have "sublist ?m (rstrip txt @ [10, 10])" by (simp add: str_def)
  then have "sublist ?m (rstrip txt) \<or> sublist ?m [10, 10]"
    by (rule sublist_append_first) (simp add: help_end_text_def str_def)
  moreover have "\<not> sublist ?m [10, 10]"
    using sublist_set[of ?m "[10, 10]"] by (auto simp: help_end_text_def str_def)
  ultimately have "sublist ?m (rstrip txt)" by simp
  moreover from rstrip_decomp[of "txt"] obtain ws where "txt = rstrip txt @ ws" by blast
  ultimately show ?thesis by (metis sublist_append_rightI sublist_order.order_trans)
qed

section \<open>Reading and writing the file\<close>



lemma universal_newlines_no_cr: "13 \<notin> set (universal_newlines s)"
  by (induction s rule: universal_newlines.induct) auto

lemma universal_newlines_id: "13 \<notin> set s \<Longrightarrow> universal_newlines s = s"
  by (induction s rule: universal_newlines.induct) auto

lemma universal_newlines_scalar:
  "list_all scalar s \<Longrightarrow> list_all scalar (universal_newlines s)"
  by (induction s rule: universal_newlines.induct) (auto simp: scalar_def)

lemma universal_newlines_cons:
  "c \<noteq> 13 \<Longrightarrow> universal_newlines (c # s) = c # universal_newlines s"
  by (cases s) simp_all

lemma universal_newlines_append_left:
  "13 \<notin> set p \<Longrightarrow> universal_newlines (p @ s) = p @ universal_newlines s"
  by (induction p) (simp_all add: universal_newlines_cons)

lemma universal_newlines_after_lf:
  "universal_newlines (x @ 10 # r) = universal_newlines (x @ [10]) @ universal_newlines r"
proof (induction x rule: universal_newlines.induct)
  case 1
  show ?case by (simp add: universal_newlines_cons)
next
  case (2 c)
  show ?case by (simp add: universal_newlines_cons)
next
  case (3 c d cs)
  then show ?case by auto
qed

lemma universal_newlines_ends: "\<exists>y. universal_newlines (x @ [10]) = y @ [10]"
proof (induction x rule: universal_newlines.induct)
  case 1
  show ?case by simp
next
  case (2 c)
  show ?case by simp
next
  case (3 c d cs)
  then show ?case by (auto simp: Cons_eq_append_conv)
qed

lemma prefix_universal_newlines:
  assumes "10 \<notin> set m" "13 \<notin> set m"
  shows "prefix m (universal_newlines s) \<Longrightarrow> prefix m s"
  using assms
proof (induction m arbitrary: s)
  case Nil
  show ?case by simp
next
  case (Cons a m)
  then have a: "a \<noteq> 10" "a \<noteq> 13" by auto
  from Cons.prems(1) obtain u where u: "universal_newlines s = a # u" "prefix m u"
    by (cases "universal_newlines s") auto
  have "\<exists>r. s = a # r \<and> u = universal_newlines r"
  proof (cases s)
    case Nil
    with u show ?thesis by simp
  next
    case (Cons c r)
    show ?thesis
    proof (cases "c = 13")
      case True
      with Cons u a show ?thesis by (cases r) (auto split: if_splits)
    next
      case False
      with Cons u show ?thesis by (simp add: universal_newlines_cons)
    qed
  qed
  then obtain r where r: "s = a # r" "u = universal_newlines r" by blast
  with u(2) Cons.IH[of r] Cons.prems(2,3) show ?case by simp
qed

lemma sublist_universal_newlines:
  assumes "m \<noteq> []" "10 \<notin> set m" "13 \<notin> set m"
  shows "sublist m (universal_newlines s) \<Longrightarrow> sublist m s"
proof (induction s rule: universal_newlines.induct)
  case 1
  then show ?case by simp
next
  case (2 c)
  then have "prefix m (universal_newlines [c]) \<or> sublist m []"
    by (simp add: sublist_Cons_right)
  then have "prefix m (universal_newlines [c])" using assms(1) by auto
  then have "prefix m [c]" by (rule prefix_universal_newlines[OF assms(2,3)])
  then show ?case by (auto simp: prefix_def)
next
  case (3 c d cs)
  let ?s = "c # d # cs"
  obtain h t where ht: "universal_newlines ?s = h # t"
    "t = universal_newlines cs \<or> t = universal_newlines (d # cs)"
    by (cases "c = 13 \<and> d = 10"; cases "c = 13") auto
  from 3(4) ht(1) have "prefix m (universal_newlines ?s) \<or> sublist m t"
    by (simp add: sublist_Cons_right)
  then show ?case
  proof
    assume "prefix m (universal_newlines ?s)"
    then have "prefix m ?s" by (rule prefix_universal_newlines[OF assms(2,3)])
    then show ?thesis by (auto simp: prefix_def)
  next
    assume t: "sublist m t"
    have "sublist m cs \<or> sublist m (d # cs)"
    proof (cases "c = 13 \<and> d = 10")
      case True
      with ht(1) have "t = universal_newlines cs" by simp
      with t 3(1)[OF True] show ?thesis by simp
    next
      case False
      with ht(1) have "t = universal_newlines (d # cs)" by (auto split: if_splits)
      with t 3(2)[OF False] 3(3)[OF False] show ?thesis by (cases "c = 13") auto
    qed
    moreover have "sublist cs ?s" "sublist (d # cs) ?s"
      by (metis append_Cons append_Nil sublist_append_leftI)+
    ultimately show ?thesis by (meson sublist_order.order_trans)
  qed
qed

lemma read_text_facts:
  assumes "read_text raw = Some data"
  shows "list_all scalar data" "13 \<notin> set data"
proof -
  from assms obtain t where t: "utf8_decode raw = Some t" "data = universal_newlines t"
    by (auto simp: read_text_def)
  from utf8_enc_decode(1)[OF t(1)] show "list_all scalar data"
    unfolding t(2) by (rule universal_newlines_scalar)
  show "13 \<notin> set data" unfolding t(2) by (rule universal_newlines_no_cr)
qed

lemma set_indented:
  "set (concat (map (indent_line pfx) ls)) \<subseteq> set pfx \<union> set (concat ls)"
proof (induction ls)
  case Nil
  show ?case by simp
next
  case (Cons l ls)
  then show ?case using indent_line_cases[of pfx l] by auto
qed

lemma set_format_help:
  "set (format_help txt) \<subseteq> set label_text \<union> {32, 10} \<union> set txt"
proof -
  from rstrip_decomp[of "txt"] obtain ws where "txt = rstrip txt @ ws" by blast
  then have "set (rstrip txt) \<subseteq> set txt" by (metis set_append sup_ge1)
  moreover have "set (textwrap_indent (rstrip txt @ str ''\<newline>\<newline>'') (str ''   ''))
                 \<subseteq> set (str ''   '') \<union> set (rstrip txt @ str ''\<newline>\<newline>'')"
    unfolding textwrap_indent_def splitlines_keepends_def
    using set_indented[of "str ''   ''" "splitl [] (rstrip txt @ str ''\<newline>\<newline>'')"]
    by (simp add: concat_splitl)
  ultimately show ?thesis by (auto simp: format_help_def str_def)
qed

lemma scalar_format_help:
  assumes "list_all scalar txt"
  shows "list_all scalar (format_help txt)"
proof -
  have "list_all scalar label_text" by (simp add: label_text_def str_def scalar_def)
  moreover have "scalar 32" "scalar 10" by (simp_all add: scalar_def)
  ultimately show ?thesis using assms set_format_help[of "txt"]
    unfolding list_all_iff by blast
qed

lemma file_textD:
  assumes "file_text w = Some data"
  obtains raw where "readme w = Some raw" "read_text raw = Some data"
  using assms by (auto simp: file_text_def split: option.splits)

lemma main_splice:
  assumes "utf8_decode out = Some txt" "file_text w = Some data"
    and "first_occurrence help_begin_text data 0 b"
    and "first_occurrence help_end_text data b e"
  shows "main (Completed rc out) w =
     Inr (w\<lparr>readme := Some (utf8_enc (take (b + length help_begin_text + 1) data
                                        @ format_help txt @ drop e data))\<rparr>)"
proof -
  let ?upd = "take (b + length help_begin_text + 1) data @ format_help txt @ drop e data"
  from assms(2) obtain raw where raw: "readme w = Some raw" "read_text raw = Some data"
    by (rule file_textD)
  have fb: "py_find data help_begin_text 0 = int b"
    using first_occurrence_find[OF assms(3)] by simp
  have fe: "py_find data help_end_text (int b) = int e"
    using first_occurrence_find[OF assms(4)] .
  have nb: "int b \<noteq> - 1" "int e \<noteq> - 1" by simp_all
  have sl: "slice_to data (int b + int (length help_begin_text) + 1)
            = take (b + length help_begin_text + 1) data"
    by (simp add: slice_to_def nat_add_distrib)
  have sf: "slice_from data (int e) = drop e data" by (simp add: slice_from_def)
  have "list_all scalar data" by (rule read_text_facts(1)[OF raw(2)])
  then have "list_all scalar (take (b + length help_begin_text + 1) data)"
    "list_all scalar (drop e data)"
    unfolding list_all_iff by (auto dest: in_set_takeD in_set_dropD)
  moreover have "list_all scalar (format_help txt)"
    by (rule scalar_format_help[OF utf8_enc_decode(1)[OF assms(1)]])
  ultimately have "list_all scalar ?upd" by simp
  then have en: "utf8_encode ?upd = Some (utf8_enc ?upd)" by (simp add: utf8_encode_def)
  show ?thesis
    using assms(1) raw nb en by (simp add: main_def fb fe sl sf Let_def)
qed

lemma main_begin_missing:
  assumes "utf8_decode out = Some txt" "file_text w = Some data"
    and "absent_from help_begin_text data 0"
  shows "main (Completed rc out) w
         = Inr (w\<lparr>console := console w @ [not_found_message help_begin_text]\<rparr>)"
proof -
  from assms(2) obtain raw where raw: "readme w = Some raw" "read_text raw = Some data"
    by (rule file_textD)
  have fb: "py_find data help_begin_text 0 = - 1"
    using absent_from_find[OF assms(3)] by simp
  show ?thesis using assms(1) raw by (simp add: main_def fb Let_def print_def)
qed

lemma main_end_missing:
  assumes "utf8_decode out = Some txt" "file_text w = Some data"
    and "first_occurrence help_begin_text data 0 b"
    and "absent_from help_end_text data b"
  shows "main (Completed rc out) w
         = Inr (w\<lparr>console := console w @ [not_found_message help_end_text]\<rparr>)"
proof -
  from assms(2) obtain raw where raw: "readme w = Some raw" "read_text raw = Some data"
    by (rule file_textD)
  have fb: "py_find data help_begin_text 0 = int b"
    using first_occurrence_find[OF assms(3)] by simp
  have "b \<le> length data" using assms(3) by (simp add: first_occurrence_def occurs_at_def)
  then have fe: "py_find data help_end_text (int b) = - 1"
    using absent_from_find[OF assms(4)] by simp
  have nb: "int b \<noteq> - 1" by simp
  show ?thesis using assms(1) raw nb by (simp add: main_def fb fe Let_def print_def)
qed

lemma main_decode_error:
  assumes "utf8_decode out = None"
  shows "main (Completed rc out) w = Inl UnicodeDecodeError"
  using assms by (simp add: main_def)

lemma utf8_enc_append: "utf8_enc (a @ b) = utf8_enc a @ utf8_enc b"
  by (simp add: utf8_enc_def)

lemma utf8_enc_ascii:
  assumes "\<forall>c\<in>set s. (of_char c :: nat) < 128"
  shows "utf8_enc (str s) = s"
  using assms by (induction s) (simp_all add: utf8_enc_def str_def utf8_enc1_def)

lemma read_text_ascii:
  assumes "\<forall>c\<in>set s. (of_char c :: nat) < 128" "CHR 0x0D \<notin> set s"
  shows "read_text s = Some (str s)"
proof -
  have "utf8_dec (map of_char s) = Some (map of_char s)" using assms(1)
    by (induction s) simp_all
  moreover have "13 \<notin> set (map of_char s :: nat list)"
  proof
    assume "13 \<in> set (map of_char s :: nat list)"
    then obtain c where c: "c \<in> set s" "(of_char c :: nat) = 13" by auto
    then have "c = char_of (13::nat)" by (metis char_of_char)
    then have "c = CHR 0x0D" by (simp add: char_of_eq_iff)
    with c(1) assms(2) show False by simp
  qed
  ultimately show ?thesis
    by (simp add: read_text_def utf8_decode_def str_def universal_newlines_id)
qed

text \<open>The definitions that a run on given bytes unfolds.\<close>

lemmas eval_defs = main_def utf8_decode_def read_text_def utf8_encode_def utf8_enc_def
  utf8_enc1_def scalar_def char_of_eq_iff cont_def py_find_def slice_to_def slice_from_def
  help_begin_text_def help_end_text_def format_help_def label_text_def
  textwrap_indent_def splitlines_keepends_def indent_line_def strip_def rstrip_def
  str_def isspace_def linebreak_def

lemmas text_defs = file_text_def read_text_def utf8_decode_def str_def cont_def

section \<open>Marker occurrences after a splice\<close>

text \<open>
  A text without newline occurs in \<open>prefix @ block @ suffix\<close>, for a block that starts and
  ends with a newline, only inside one of the three parts.
\<close>

lemma occurs_at_inside:
  assumes "occurs_at sub q k"
  shows "occurs_at sub (p @ q @ r) (length p + k)"
proof -
  from assms have k: "k \<le> length q" and "prefix sub (drop k q)" by (simp_all add: occurs_at_def)
  then have "prefix sub (drop k q @ r)" by (simp add: prefix_def) (metis append_assoc)
  with k have "occurs_at sub (q @ r) k" by (simp add: occurs_at_def)
  then show ?thesis by (rule occurs_at_append_right)
qed

lemma occurs_at_within_right:
  assumes "occurs_at sub (p @ s) j" "length p \<le> j"
  shows "occurs_at sub s (j - length p)"
  using assms unfolding occurs_at_def by auto

lemma occurs_at_undrop:
  assumes "occurs_at sub (drop e s) k" "e \<le> length s"
  shows "occurs_at sub s (k + e)"
  using assms unfolding occurs_at_def by (auto simp: add.commute)

lemma occurs_at_spliced:
  assumes "10 \<notin> set m" and "blk = 10 # body @ [10]"
    and "sp \<le> length data" and "e \<le> length data"
  shows "occurs_at m (take sp data @ blk @ drop e data) j =
         ((j + length m \<le> sp \<and> occurs_at m data j)
          \<or> (sp \<le> j \<and> j + length m \<le> sp + length blk \<and> occurs_at m blk (j - sp))
          \<or> (sp + length blk \<le> j \<and> occurs_at m data (j - (sp + length blk) + e)))"
    (is "occurs_at m ?upd j = (?A \<or> ?B \<or> ?C)")
proof
  have lp: "length (take sp data) = sp" using assms(3) by simp
  have at_sp: "?upd ! sp = 10" using lp by (simp add: nth_append assms(2))
  have at_end: "?upd ! (sp + length blk - 1) = 10"
  proof -
    have "?upd = (take sp data @ 10 # body) @ 10 # drop e data" by (simp add: assms(2))
    moreover have "sp + length blk - 1 = length (take sp data @ 10 # body)"
      using lp by (simp add: assms(2))
    ultimately show ?thesis by (metis nth_append_length)
  qed
  assume o: "occurs_at m ?upd j"
  consider "j + length m \<le> sp" | "j \<le> sp" "sp < j + length m"
    | "sp \<le> j" "j + length m \<le> sp + length blk"
    | "j \<le> sp + length blk - 1" "sp + length blk - 1 < j + length m"
    | "sp + length blk \<le> j"
    by (simp add: assms(2)) linarith
  then show "?A \<or> ?B \<or> ?C"
  proof cases
    case 1
    from o have "occurs_at m data j"
      by (rule occurs_at_within_left) (use 1 assms(3) in simp_all)
    with 1 show ?thesis by simp
  next
    case 2
    from occurs_at_covers[OF o 2] at_sp assms(1) show ?thesis by simp
  next
    case 3
    from o have "occurs_at m blk (j - length (take sp data))"
      by (rule occurs_at_within_middle) (use 3 lp in simp_all)
    with 3 lp show ?thesis by simp
  next
    case 4
    from occurs_at_covers[OF o 4] at_end assms(1) show ?thesis by simp
  next
    case 5
    from o have "occurs_at m ((take sp data @ blk) @ drop e data) j" by simp
    then have "occurs_at m (drop e data) (j - length (take sp data @ blk))"
      by (rule occurs_at_within_right) (use 5 lp in simp)
    then have "occurs_at m data (j - length (take sp data @ blk) + e)"
      by (rule occurs_at_undrop) (rule assms(4))
    with 5 lp show ?thesis by simp
  qed
next
  have lp: "length (take sp data) = sp" using assms(3) by simp
  assume "?A \<or> ?B \<or> ?C"
  then show "occurs_at m ?upd j"
  proof (elim disjE conjE)
    assume "j + length m \<le> sp" "occurs_at m data j"
    then show ?thesis by (intro occurs_at_append_left)
  next
    assume b: "sp \<le> j" "occurs_at m blk (j - sp)"
    from occurs_at_inside[OF b(2), of "take sp data" "drop e data"] b(1) lp
    show ?thesis by simp
  next
    assume c: "sp + length blk \<le> j" "occurs_at m data (j - (sp + length blk) + e)"
    have "occurs_at m (drop e data) (j - (sp + length blk) + e - e)"
      by (rule occurs_at_drop[OF c(2)]) simp
    then have "occurs_at m (drop e data) (j - (sp + length blk))" by simp
    from occurs_at_append_right[OF this, of "take sp data @ blk"] c(1) lp
    show ?thesis by simp
  qed
qed

lemma help_begin_text_no_newline: "10 \<notin> set help_begin_text"
  by (simp add: help_begin_text_def str_def)

lemma respliced_markers:
  assumes "first_occurrence help_begin_text data 0 b"
    and "first_occurrence help_end_text data b e"
    and "blk = 10 # body @ [10]"
    and "\<not> sublist help_end_text blk"
  defines "sp \<equiv> b + length help_begin_text + 1"
  defines "upd \<equiv> take sp data @ blk @ drop e data"
  shows "first_occurrence help_begin_text upd 0 b"
    and "first_occurrence help_end_text upd b (sp + length blk)"
proof -
  have len: "sp \<le> length data" "b + length help_begin_text \<le> e" "e \<le> length data"
    unfolding sp_def using splice_point_in_range[OF assms(1,2)] by simp_all
  have ob: "occurs_at help_begin_text data b" and oe: "occurs_at help_end_text data e"
    and nb: "\<And>j. j < b \<Longrightarrow> \<not> occurs_at help_begin_text data j"
    and ne: "\<And>j. b \<le> j \<Longrightarrow> j < e \<Longrightarrow> \<not> occurs_at help_end_text data j"
    using assms(1,2) by (simp_all add: first_occurrence_iff)
  note ib = occurs_at_spliced[OF help_begin_text_no_newline assms(3) len(1,3), folded upd_def]
  note ie = occurs_at_spliced[OF help_end_text_no_newline assms(3) len(1,3), folded upd_def]
  have "occurs_at help_begin_text upd b" using ob by (simp add: ib sp_def)
  moreover have "\<not> occurs_at help_begin_text upd j" if "j < b" for j
    using that nb[OF that] by (simp add: ib sp_def)
  ultimately show "first_occurrence help_begin_text upd 0 b"
    by (simp add: first_occurrence_iff)
  have "occurs_at help_end_text upd (sp + length blk)" using oe by (simp add: ie)
  moreover have "\<not> occurs_at help_end_text upd j" if j: "b \<le> j" "j < sp + length blk" for j
  proof
    assume "occurs_at help_end_text upd j"
    then consider "j + length help_end_text \<le> sp" "occurs_at help_end_text data j"
      | "occurs_at help_end_text blk (j - sp)"
      using j by (auto simp: ie)
    then show False
    proof cases
      case 1
      have "j < e" using 1(1) len(2) by (simp add: sp_def help_end_text_length)
      with ne[OF j(1)] 1(2) show False by simp
    next
      case 2
      then have "sublist help_end_text blk" using occurs_at_sublist by blast
      with assms(4) show False ..
    qed
  qed
  moreover have "b \<le> sp + length blk" by (simp add: sp_def)
  ultimately show "first_occurrence help_end_text upd b (sp + length blk)"
    by (simp add: first_occurrence_iff)
qed

section \<open>Reading back what was written\<close>

lemma reread_spliced:
  assumes "read_text raw = Some data" and "list_all scalar blk" and "blk = 10 # body @ [10]"
  shows "read_text (utf8_enc (take sp data @ blk @ drop e data))
         = Some (take sp data @ universal_newlines blk @ drop e data)"
proof -
  let ?P = "take sp data" and ?S = "drop e data"
  have d: "list_all scalar data" "13 \<notin> set data" by (rule read_text_facts[OF assms(1)])+
  then have ps: "list_all scalar ?P" "list_all scalar ?S" "13 \<notin> set ?P" "13 \<notin> set ?S"
    unfolding list_all_iff by (auto dest: in_set_takeD in_set_dropD)
  then have "list_all scalar (?P @ blk @ ?S)" using assms(2) by simp
  then have "utf8_decode (utf8_enc (?P @ blk @ ?S)) = Some (?P @ blk @ ?S)"
    by (rule utf8_decode_enc)
  moreover have "universal_newlines (?P @ blk @ ?S) = ?P @ universal_newlines blk @ ?S"
  proof -
    have "universal_newlines (?P @ blk @ ?S) = ?P @ universal_newlines (blk @ ?S)"
      by (rule universal_newlines_append_left[OF ps(3)])
    also have "blk @ ?S = (10 # body) @ 10 # ?S" by (simp add: assms(3))
    also have "universal_newlines \<dots> = universal_newlines ((10 # body) @ [10]) @ universal_newlines ?S"
      by (rule universal_newlines_after_lf)
    also have "universal_newlines ?S = ?S" by (rule universal_newlines_id[OF ps(4)])
    finally show ?thesis by (simp add: assms(3))
  qed
  ultimately show ?thesis by (simp add: read_text_def)
qed

lemma cr_in_bytes:
  assumes "utf8_decode raw = Some t" "13 \<in> set t"
  shows "CHR 0x0D \<in> set raw"
proof -
  have "utf8_enc1 13 = [13]" by (simp add: utf8_enc1_def)
  with assms(2) have "13 \<in> set (concat (map utf8_enc1 t))" by force
  then have "char_of (13::nat) \<in> char_of ` set (concat (map utf8_enc1 t))" by (rule imageI)
  then have "char_of (13::nat) \<in> set (utf8_enc t)" by (simp only: utf8_enc_def set_map)
  moreover have "char_of (13::nat) = CHR 0x0D" by (simp add: char_of_eq_iff)
  ultimately show ?thesis using utf8_enc_decode(2)[OF assms(1)] by simp
qed

lemma read_text_no_cr:
  assumes "read_text raw = Some data" "CHR 0x0D \<notin> set raw"
  shows "utf8_enc data = raw"
proof -
  from assms(1) obtain t where t: "utf8_decode raw = Some t" "data = universal_newlines t"
    by (auto simp: read_text_def)
  have "13 \<notin> set t" using cr_in_bytes[OF t(1)] assms(2) by blast
  then have "data = t" unfolding t(2) by (rule universal_newlines_id)
  with utf8_enc_decode(2)[OF t(1)] show ?thesis by simp
qed

lemma reread_block:
  assumes "blk = 10 # body @ [10]"
  shows "\<exists>body'. universal_newlines blk = 10 # body' @ [10]"
proof -
  from universal_newlines_ends[of body] obtain y where "universal_newlines (body @ [10]) = y @ [10]" ..
  then have "universal_newlines blk = 10 # y @ [10]"
    unfolding assms by (simp add: universal_newlines_cons)
  then show ?thesis ..
qed

lemma main_never_encode_error: "main p w \<noteq> Inl UnicodeEncodeError"
proof (cases p)
  case LaunchFailed
  then show ?thesis by (simp add: main_def)
next
  case (Completed rc out)
  show ?thesis
  proof
    assume a: "main p w = Inl UnicodeEncodeError"
    with Completed obtain t raw data where
      d: "utf8_decode out = Some t" "readme w = Some raw" "read_text raw = Some data"
      by (auto simp: main_def Let_def split: option.splits)
    let ?b = "py_find data help_begin_text 0"
    let ?e = "py_find data help_end_text ?b"
    let ?upd = "slice_to data (?b + int (length help_begin_text) + 1) @ format_help t
                @ slice_from data ?e"
    have "list_all scalar data" by (rule read_text_facts(1)[OF d(3)])
    then have "list_all scalar (slice_to data (?b + int (length help_begin_text) + 1))"
      "list_all scalar (slice_from data ?e)"
      unfolding list_all_iff slice_to_def slice_from_def
      by (auto dest: in_set_takeD in_set_dropD)
    moreover have "list_all scalar (format_help t)"
      by (rule scalar_format_help[OF utf8_enc_decode(1)[OF d(1)]])
    ultimately have "utf8_encode ?upd = Some (utf8_enc ?upd)" by (simp add: utf8_encode_def)
    with a Completed d show False
      by (simp add: main_def Let_def print_def split: if_splits)
  qed
qed

section \<open>The lines of a text\<close>

text \<open>
  \<open>splitlines_keepends\<close> cuts a text into proper lines, and no other list of proper lines
  has the text as its concatenation.
\<close>

lemma complete_line_single:
  assumes "\<forall>c\<in>set body. \<not> linebreak c" "linebreak c"
  shows "complete_line (body @ [c])"
proof -
  have "\<not> (2 \<le> length (body @ [c]) \<and> last (butlast (body @ [c])) = 13)"
  proof
    assume a: "2 \<le> length (body @ [c]) \<and> last (butlast (body @ [c])) = 13"
    then have "body \<noteq> []" "last body = 13" by auto
    then have "13 \<in> set body" by (metis last_in_set)
    moreover have "linebreak 13" by (simp add: linebreak_def)
    ultimately show False using assms(1) by blast
  qed
  then show ?thesis using assms by (auto simp: complete_line_def list_all_iff)
qed

lemma complete_line_crlf:
  assumes "\<forall>c\<in>set body. \<not> linebreak c"
  shows "complete_line (body @ [13, 10])"
proof -
  have "butlast (body @ [13, 10]) = body @ [13]" by (simp add: butlast_append)
  moreover have "linebreak 10" by (simp add: linebreak_def)
  ultimately show ?thesis using assms by (simp add: complete_line_def list_all_iff)
qed

lemma complete_lineD:
  assumes "complete_line l"
  shows "l \<noteq> []" "linebreak (last l)"
    "\<exists>body. (\<forall>c\<in>set body. \<not> linebreak c) \<and> (l = body @ [13, 10] \<or> l = body @ [last l])"
proof -
  show 1: "l \<noteq> []" and 2: "linebreak (last l)" using assms by (simp_all add: complete_line_def)
  show "\<exists>body. (\<forall>c\<in>set body. \<not> linebreak c) \<and> (l = body @ [13, 10] \<or> l = body @ [last l])"
  proof (cases "2 \<le> length l \<and> last l = 10 \<and> last (butlast l) = 13")
    case True
    then have b: "butlast l \<noteq> []" by (cases l rule: rev_cases) auto
    have "l = butlast l @ [last l]" using 1 by simp
    also have "butlast l = butlast (butlast l) @ [last (butlast l)]" using b by simp
    finally have "l = butlast (butlast l) @ [13, 10]" using True by simp
    moreover have "\<forall>c\<in>set (butlast (butlast l)). \<not> linebreak c"
      using assms True by (simp add: complete_line_def list_all_iff)
    ultimately show ?thesis by blast
  next
    case False
    then have "\<forall>c\<in>set (butlast l). \<not> linebreak c"
      using assms by (auto simp: complete_line_def list_all_iff)
    moreover have "l = butlast l @ [last l]" using 1 by simp
    ultimately show ?thesis by blast
  qed
qed

lemma proper_lines_Cons:
  assumes "complete_line l" "proper_lines rest"
    and "\<And>m ls. rest = m # ls \<Longrightarrow> \<not> (last l = 13 \<and> hd m = 10)"
  shows "proper_lines (l # rest)"
  using assms complete_lineD(1)[OF assms(1)] by (cases rest) auto

lemma proper_lines_splitl:
  assumes "\<forall>c\<in>set cur. \<not> linebreak c"
  shows "proper_lines (splitl cur s)"
  using assms
proof (induction cur s rule: splitl.induct)
  case (1 cur)
  then show ?case by (simp add: list_all_iff)
next
  case (2 cur c)
  show ?case
  proof (cases "linebreak c")
    case True
    with complete_line_single[OF 2 True] show ?thesis by simp
  next
    case False
    with 2 show ?thesis by (simp add: list_all_iff)
  qed
next
  case (3 cur c d cs)
  note nb = 3(4)
  show ?case
  proof (cases "c = 13 \<and> d = 10")
    case True
    have "proper_lines ((cur @ [13, 10]) # splitl [] cs)"
    proof (rule proper_lines_Cons)
      show "complete_line (cur @ [13, 10])" by (rule complete_line_crlf[OF nb])
      show "proper_lines (splitl [] cs)" using 3(1)[OF True] by simp
    qed simp
    with True show ?thesis by simp
  next
    case False
    show ?thesis
    proof (cases "linebreak c")
      case True
      have sp: "splitl cur (c # d # cs) = (cur @ [c]) # splitl [] (d # cs)"
        using False True by auto
      from splitl_hd[of "[]" "d # cs"] obtain l ls where
        l: "splitl [] (d # cs) = l # ls" "hd l = d" by auto
      have "proper_lines ((cur @ [c]) # splitl [] (d # cs))"
      proof (rule proper_lines_Cons)
        show "complete_line (cur @ [c])" by (rule complete_line_single[OF nb True])
        show "proper_lines (splitl [] (d # cs))" using 3(2)[OF False True] by simp
        show "\<not> (last (cur @ [c]) = 13 \<and> hd m = 10)" if "splitl [] (d # cs) = m # ms" for m ms
          using that l False by auto
      qed
      with sp show ?thesis by simp
    next
      case nl: False
      have sp: "splitl cur (c # d # cs) = splitl (cur @ [c]) (d # cs)"
        using False nl by auto
      have "\<forall>x\<in>set (cur @ [c]). \<not> linebreak x" using nb nl by simp
      from 3(3)[OF False nl this] sp show ?thesis by simp
    qed
  qed
qed

lemma proper_lines_splitlines: "proper_lines (splitlines_keepends s)"
  unfolding splitlines_keepends_def by (rule proper_lines_splitl) simp

lemma concat_splitlines: "concat (splitlines_keepends s) = s"
  by (simp add: splitlines_keepends_def concat_splitl)

lemma splitl_complete_line:
  assumes "complete_line l"
  shows "splitl [] l = [l]"
proof -
  from complete_lineD(3)[OF assms] obtain body where
    b: "\<forall>c\<in>set body. \<not> linebreak c" "l = body @ [13, 10] \<or> l = body @ [last l]" by blast
  from b(2) show ?thesis
  proof
    assume "l = body @ [13, 10]"
    with splitl_line(2)[OF b(1)] show ?thesis by simp
  next
    assume "l = body @ [last l]"
    with splitl_line(1)[OF b(1), of "last l"] show ?thesis by simp
  qed
qed

lemma splitlines_unique:
  "proper_lines ls \<Longrightarrow> splitlines_keepends (concat ls) = ls"
proof (induction ls rule: proper_lines.induct)
  case 1
  show ?case by (simp add: splitlines_keepends_def)
next
  case (2 l)
  then have l: "l \<noteq> []" "complete_line l \<or> (\<forall>c\<in>set l. \<not> linebreak c)"
    by (simp_all add: list_all_iff)
  from l(2) have "splitl [] l = [l]"
  proof
    assume "complete_line l" then show ?thesis by (rule splitl_complete_line)
  next
    assume "\<forall>c\<in>set l. \<not> linebreak c"
    then show ?thesis using l(1) by (rule splitl_line(3))
  qed
  then show ?case by (simp add: splitlines_keepends_def)
next
  case (3 l m ls)
  then have c: "complete_line l" "\<not> (last l = 13 \<and> hd m = 10)" "proper_lines (m # ls)"
    by simp_all
  have m: "m \<noteq> []" using c(3) complete_lineD(1) by (cases ls) auto
  have "splitl [] (l @ concat (m # ls)) = splitl [] l @ splitl [] (concat (m # ls))"
  proof (rule splitl_append)
    show "l \<noteq> []" "linebreak (last l)" using complete_lineD(1,2)[OF c(1)] .
    show "\<not> (last l = 13 \<and> (\<exists>r. concat (m # ls) = 10 # r))"
      using c(2) m by (cases m) auto
  qed
  also have "splitl [] l = [l]" by (rule splitl_complete_line[OF c(1)])
  also have "splitl [] (concat (m # ls)) = m # ls"
    using 3(1)[OF c(3)] by (simp add: splitlines_keepends_def)
  finally show ?case by (simp add: splitlines_keepends_def)
qed

lemma indent_line_blank:
  "indent_line pfx l = (if blank l then l else pfx @ l)"
  by (simp add: indent_line_iff blank_def list_all_iff)

lemma format_help_lines:
  "format_help txt
   = str ''\<newline>'' @ str ''Output of ``nirw-search --help``::\<newline>'' @ str ''\<newline>''
     @ concat (map (\<lambda>l. if blank l then l else str ''   '' @ l)
                 (splitlines_keepends (rstrip txt @ str ''\<newline>\<newline>'')))"
proof -
  have "indent_line (str ''   '') = (\<lambda>l. if blank l then l else str ''   '' @ l)"
    by (rule ext) (rule indent_line_blank)
  then show ?thesis
    by (simp add: format_help_def textwrap_indent_def label_text_lines label_line_def str_def)
qed

lemma format_help_nothing:
  assumes "rstrip txt = []"
  shows "format_help txt = str ''\<newline>Output of ``nirw-search --help``::\<newline>\<newline>\<newline>\<newline>''"
proof -
  have "format_help txt = label_text @ textwrap_indent (str ''\<newline>\<newline>'') (str ''   '')"
    by (simp add: format_help_def assms)
  also have "\<dots> = str ''\<newline>Output of ``nirw-search --help``::\<newline>\<newline>\<newline>\<newline>''"
    by (simp add: label_text_def textwrap_indent_def splitlines_keepends_def
        indent_line_def strip_def rstrip_def str_def isspace_def linebreak_def)
  finally show ?thesis .
qed

section \<open>Missing markers\<close>

text \<open>
  C1. When the begin marker is absent from the document text, or when it is there and the
  end marker occurs nowhere at or after the first begin marker (the end marker standing only
  before the begin marker is such a document), \<^verbatim>\<open>main\<close> prints the diagnostic that names
  the missing marker (\<^verbatim>\<open>Error: '<marker>' not found\<close>; 39 is the single quote) and
  returns without error: one more line is printed, and the bytes of the file are the bytes
  it had.
\<close>

theorem missing_marker_no_write:
  assumes "utf8_decode out = Some txt" and "file_text w = Some data"
    and "absent_from help_begin_text data 0
         \<or> (first_occurrence help_begin_text data 0 b \<and> absent_from help_end_text data b)"
  shows "\<exists>w' missing.
           main (Completed rc out) w = Inr w'
         \<and> readme w' = readme w
         \<and> missing = (if absent_from help_begin_text data 0 then help_begin_text
                       else help_end_text)
         \<and> console w' = console w @ [str ''Error: '' @ [39] @ missing @ [39] @ str '' not found'']"
proof (cases "absent_from help_begin_text data 0")
  case True
  from main_begin_missing[OF assms(1,2) True, of rc] True show ?thesis
    by (simp add: not_found_message_def)
next
  case False
  with assms(3) have "first_occurrence help_begin_text data 0 b"
    "absent_from help_end_text data b" by simp_all
  from main_end_missing[OF assms(1,2) this, of rc] False show ?thesis
    by (simp add: not_found_message_def)
qed

theorem missing_marker_no_write_witness:
  "main (Completed 0 ''usage'') \<lparr>readme = Some ''no markers here\<newline>'', console = []\<rparr>
     = Inr \<lparr>readme = Some ''no markers here\<newline>'',
            console = [str ''Error: '' @ [39] @ str ''.. BEGIN HELP TEXT'' @ [39]
                       @ str '' not found'']\<rparr>
   \<and> main (Completed 0 ''usage'')
        \<lparr>readme = Some ''.. END HELP TEXT\<newline>.. BEGIN HELP TEXT\<newline>'', console = []\<rparr>
     = Inr \<lparr>readme = Some ''.. END HELP TEXT\<newline>.. BEGIN HELP TEXT\<newline>'',
            console = [str ''Error: '' @ [39] @ str ''.. END HELP TEXT'' @ [39]
                       @ str '' not found'']\<rparr>"
proof -
  let ?d1 = "''no markers here\<newline>''"
  let ?d2 = "''.. END HELP TEXT\<newline>.. BEGIN HELP TEXT\<newline>''"
  have d: "utf8_decode ''usage'' = Some (str ''usage'')"
    by (simp add: utf8_decode_def str_def)
  have r1: "file_text \<lparr>readme = Some ?d1, console = []\<rparr> = Some (str ?d1)"
    and r2: "file_text \<lparr>readme = Some ?d2, console = []\<rparr> = Some (str ?d2)"
    by (simp_all add: text_defs)
  have a: "absent_from help_begin_text (str ?d1) 0"
    by (simp add: absent_from_def occurs_at_def help_begin_text_def str_def upt_rec)
  have na: "\<not> absent_from help_begin_text (str ?d2) 0"
    by (simp add: absent_from_def occurs_at_def help_begin_text_def str_def upt_rec)
  have f: "first_occurrence help_begin_text (str ?d2) 0 17"
    by (simp add: first_occurrence_def occurs_at_def help_begin_text_def str_def upt_rec)
  have e: "absent_from help_end_text (str ?d2) 17"
    by (simp add: absent_from_def occurs_at_def help_end_text_def str_def upt_rec)
  from missing_marker_no_write[OF d r1, of 0 0] a
  obtain w1 where w1: "main (Completed 0 ''usage'') \<lparr>readme = Some ?d1, console = []\<rparr> = Inr w1"
    "readme w1 = Some ?d1"
    "console w1 = [str ''Error: '' @ [39] @ help_begin_text @ [39] @ str '' not found'']"
    by auto
  from missing_marker_no_write[OF d r2, of 17 0] na f e
  obtain w2 where w2: "main (Completed 0 ''usage'') \<lparr>readme = Some ?d2, console = []\<rparr> = Inr w2"
    "readme w2 = Some ?d2"
    "console w2 = [str ''Error: '' @ [39] @ help_end_text @ [39] @ str '' not found'']"
    by auto
  have "w1 = \<lparr>readme = Some ?d1,
              console = [str ''Error: '' @ [39] @ str ''.. BEGIN HELP TEXT'' @ [39]
                         @ str '' not found'']\<rparr>"
    using w1(2,3) by (simp add: help_begin_text_def)
  moreover have "w2 = \<lparr>readme = Some ?d2,
              console = [str ''Error: '' @ [39] @ str ''.. END HELP TEXT'' @ [39]
                         @ str '' not found'']\<rparr>"
    using w2(2,3) by (simp add: help_end_text_def)
  ultimately show ?thesis using w1(1) w2(1) by simp
qed

section \<open>The splice\<close>

text \<open>
  C2, as the script has it. The document text is what \<^verbatim>\<open>f.read()\<close> returns: the bytes of
  the file decoded, with \<^verbatim>\<open>\r\n\<close> and \<^verbatim>\<open>\r\<close> read as \<^verbatim>\<open>\n\<close>. When it has the begin
  marker and, at or after it, the end marker, the text written is
  \<^verbatim>\<open>data[:splice_point] + help_output + data[help_end_index:]\<close> with the splice point one
  character after the begin marker, and the file becomes its UTF-8 encoding. So the written
  text starts with the old text up to the splice point and ends with the old text from the
  end marker on, both markers are still there (the begin marker at its old index, the end
  marker right after the new block), and reading the file again gives these two parts
  unchanged around the block. On disk the new bytes are the encodings of the three parts
  one after the other, and when the old file has no carriage return the first and the last
  of them are the bytes the old file started and ended with.
\<close>

theorem splice_formula:
  assumes "utf8_decode out = Some txt"
    and "readme w = Some raw" and "read_text raw = Some data"
    and "first_occurrence help_begin_text data 0 b"
    and "first_occurrence help_end_text data b e"
  shows "\<exists>upd splice_point.
           main (Completed rc out) w = Inr (w\<lparr>readme := Some (utf8_enc upd)\<rparr>)
         \<and> splice_point = b + length help_begin_text + 1
         \<and> upd = take splice_point data @ format_help txt @ drop e data
         \<and> take splice_point upd = take splice_point data
         \<and> drop (splice_point + length (format_help txt)) upd = drop e data
         \<and> occurs_at help_begin_text upd b
         \<and> occurs_at help_end_text upd (splice_point + length (format_help txt))
         \<and> read_text (utf8_enc upd)
           = Some (take splice_point data @ universal_newlines (format_help txt) @ drop e data)
         \<and> utf8_enc upd = utf8_enc (take splice_point data) @ utf8_enc (format_help txt)
                          @ utf8_enc (drop e data)
         \<and> (CHR 0x0D \<notin> set raw \<longrightarrow>
               prefix (utf8_enc (take splice_point data)) raw
             \<and> suffix (utf8_enc (drop e data)) raw)"
proof -
  define sp where "sp = b + length help_begin_text + 1"
  define upd where "upd = take sp data @ format_help txt @ drop e data"
  have ft: "file_text w = Some data" using assms(2,3) by (simp add: file_text_def)
  have m: "main (Completed rc out) w = Inr (w\<lparr>readme := Some (utf8_enc upd)\<rparr>)"
    unfolding upd_def sp_def by (rule main_splice[OF assms(1) ft assms(4,5)])
  have len: "sp \<le> length data"
    unfolding sp_def by (rule splice_point_in_range(3)[OF assms(4,5)])
  have ob: "occurs_at help_begin_text data b" and oe: "occurs_at help_end_text data e"
    using assms(4,5) by (simp_all add: first_occurrence_def)
  have t: "take sp upd = take sp data" using len by (simp add: upd_def)
  have d: "drop (sp + length (format_help txt)) upd = drop e data"
    using len by (simp add: upd_def)
  have b: "occurs_at help_begin_text upd b"
    unfolding upd_def by (rule occurs_at_append_left[OF ob]) (simp add: sp_def)
  have "occurs_at help_end_text (drop e data) 0"
    using oe by (simp add: occurs_at_def)
  from occurs_at_append_right[OF this, of "take sp data @ format_help txt"]
  have e: "occurs_at help_end_text upd (sp + length (format_help txt))"
    using len by (simp add: upd_def)
  from format_help_ends[of "txt"] obtain body where body: "format_help txt = 10 # body @ [10]" ..
  have r: "read_text (utf8_enc upd)
           = Some (take sp data @ universal_newlines (format_help txt) @ drop e data)"
    unfolding upd_def
    by (rule reread_spliced[OF assms(3) scalar_format_help[OF utf8_enc_decode(1)[OF assms(1)]] body])
  have a: "utf8_enc upd = utf8_enc (take sp data) @ utf8_enc (format_help txt)
                          @ utf8_enc (drop e data)"
    by (simp add: upd_def utf8_enc_append)
  have c: "prefix (utf8_enc (take sp data)) raw \<and> suffix (utf8_enc (drop e data)) raw"
    if "CHR 0x0D \<notin> set raw"
  proof -
    have raw: "utf8_enc data = raw" by (rule read_text_no_cr[OF assms(3) that])
    have "raw = utf8_enc (take sp data) @ utf8_enc (drop sp data)"
      unfolding raw[symmetric] utf8_enc_append[symmetric] by simp
    moreover have "raw = utf8_enc (take e data) @ utf8_enc (drop e data)"
      unfolding raw[symmetric] utf8_enc_append[symmetric] by simp
    ultimately show ?thesis by (metis prefixI suffixI)
  qed
  from m t d b e r a c show ?thesis unfolding upd_def sp_def by blast
qed


theorem splice_formula_witness:
  "main (Completed 0 ''usage'')
     \<lparr>readme = Some ''intro\<newline>.. BEGIN HELP TEXT\<newline>OLD\<newline>.. END HELP TEXT\<newline>rest\<newline>'',
      console = []\<rparr>
   = Inr \<lparr>readme = Some
       (''intro\<newline>.. BEGIN HELP TEXT\<newline>'' @
        ''\<newline>Output of ``nirw-search --help``::\<newline>\<newline>   usage\<newline>\<newline>'' @
        ''.. END HELP TEXT\<newline>rest\<newline>''),
      console = []\<rparr>
   \<and> prefix ''intro\<newline>.. BEGIN HELP TEXT\<newline>''
       ''intro\<newline>.. BEGIN HELP TEXT\<newline>OLD\<newline>.. END HELP TEXT\<newline>rest\<newline>''
   \<and> suffix ''.. END HELP TEXT\<newline>rest\<newline>''
       ''intro\<newline>.. BEGIN HELP TEXT\<newline>OLD\<newline>.. END HELP TEXT\<newline>rest\<newline>''"
proof -
  let ?doc = "''intro\<newline>.. BEGIN HELP TEXT\<newline>OLD\<newline>.. END HELP TEXT\<newline>rest\<newline>''"
  let ?W = "\<lparr>readme = Some ?doc, console = []\<rparr>"
  let ?P = "''intro\<newline>.. BEGIN HELP TEXT\<newline>''"
  let ?B = "''\<newline>Output of ``nirw-search --help``::\<newline>\<newline>   usage\<newline>\<newline>''"
  let ?S = "''.. END HELP TEXT\<newline>rest\<newline>''"
  have d: "utf8_decode ''usage'' = Some (str ''usage'')"
    by (simp add: utf8_decode_def str_def)
  have rm: "readme ?W = Some ?doc" by simp
  have rt: "read_text ?doc = Some (str ?doc)" by (simp add: text_defs)
  have f1: "first_occurrence help_begin_text (str ?doc) 0 6"
    by (simp add: first_occurrence_def occurs_at_def help_begin_text_def str_def upt_rec)
  have f2: "first_occurrence help_end_text (str ?doc) 6 29"
    by (simp add: first_occurrence_def occurs_at_def help_end_text_def str_def upt_rec)
  have nocr: "CHR 0x0D \<notin> set ?doc" by simp
  have t: "take (6 + length help_begin_text + 1) (str ?doc) = str ?P"
    "drop 29 (str ?doc) = str ?S"
    by (simp_all add: str_def help_begin_text_def)
  have fh: "format_help (str ''usage'') = str ?B"
    by (simp add: format_help_def label_text_def textwrap_indent_def
        splitlines_keepends_def indent_line_def strip_def rstrip_def str_def isspace_def
        linebreak_def)
  have e: "utf8_enc (str ?P) = ?P" "utf8_enc (str ?B) = ?B" "utf8_enc (str ?S) = ?S"
    by (rule utf8_enc_ascii, simp)+
  from splice_formula[OF d rm rt f1 f2, of 0] nocr
  obtain upd where u: "main (Completed 0 ''usage'') ?W = Inr (?W\<lparr>readme := Some (utf8_enc upd)\<rparr>)"
    "utf8_enc upd = utf8_enc (take (6 + length help_begin_text + 1) (str ?doc))
                    @ utf8_enc (format_help (str ''usage'')) @ utf8_enc (drop 29 (str ?doc))"
    "prefix (utf8_enc (take (6 + length help_begin_text + 1) (str ?doc))) ?doc"
    "suffix (utf8_enc (drop 29 (str ?doc))) ?doc"
    by blast
  from u(2) have "utf8_enc upd = ?P @ ?B @ ?S" unfolding t fh e .
  with u(1) have "main (Completed 0 ''usage'') ?W = Inr \<lparr>readme = Some (?P @ ?B @ ?S), console = []\<rparr>"
    by simp
  moreover from u(3) have "prefix ?P ?doc" unfolding t e .
  moreover from u(4) have "suffix ?S ?doc" unfolding t e .
  ultimately show ?thesis by blast
qed

text \<open>
  Two documents for which the sentence of the specification fails. In the first, text
  follows the begin marker on its line: the line \<^verbatim>\<open>.. BEGIN HELP TEXT (generated)\<close> is
  cut after the one character that follows the marker. In the second, the lines of the
  file end in
  \<^verbatim>\<open>\r\n\<close>: every line end outside the markers is written back as \<^verbatim>\<open>\n\<close>.
\<close>

theorem marker_line_and_line_ends_counterexample:
  "main (Completed 0 ''usage'')
     \<lparr>readme = Some ''x\<newline>.. BEGIN HELP TEXT (generated)\<newline>OLD\<newline>.. END HELP TEXT\<newline>'',
      console = []\<rparr>
   = Inr \<lparr>readme = Some
       (''x\<newline>'' @
        ''.. BEGIN HELP TEXT \<newline>'' @
        ''Output of ``nirw-search --help``::\<newline>'' @
        ''\<newline>'' @
        ''   usage\<newline>'' @
        ''\<newline>'' @
        ''.. END HELP TEXT\<newline>''),
      console = []\<rparr>
   \<and> main (Completed 0 ''usage'')
     \<lparr>readme = Some (''a'' @ [CHR 0x0D, CHR 0x0A] @
                      ''.. BEGIN HELP TEXT'' @ [CHR 0x0D, CHR 0x0A] @
                      ''OLD'' @ [CHR 0x0D, CHR 0x0A] @
                      ''.. END HELP TEXT'' @ [CHR 0x0D, CHR 0x0A] @
                      ''z'' @ [CHR 0x0D, CHR 0x0A]),
      console = []\<rparr>
   = Inr \<lparr>readme = Some
       (''a\<newline>'' @
        ''.. BEGIN HELP TEXT\<newline>'' @
        ''\<newline>'' @
        ''Output of ``nirw-search --help``::\<newline>'' @
        ''\<newline>'' @
        ''   usage\<newline>'' @
        ''\<newline>'' @
        ''.. END HELP TEXT\<newline>'' @
        ''z\<newline>''),
      console = []\<rparr>
   \<and> \<not> prefix (''a'' @ [CHR 0x0D, CHR 0x0A])
       (''a\<newline>'' @
        ''.. BEGIN HELP TEXT\<newline>'' @
        ''\<newline>'' @
        ''Output of ``nirw-search --help``::\<newline>'' @
        ''\<newline>'' @
        ''   usage\<newline>'' @
        ''\<newline>'' @
        ''.. END HELP TEXT\<newline>'' @
        ''z\<newline>'')
   \<and> str ''.. BEGIN HELP TEXT (generated)\<newline>''
       \<in> set (splitlines_keepends
               (str ''x\<newline>.. BEGIN HELP TEXT (generated)\<newline>OLD\<newline>.. END HELP TEXT\<newline>''))
   \<and> str ''.. BEGIN HELP TEXT (generated)\<newline>''
       \<notin> set (splitlines_keepends (str
              (''x\<newline>'' @
               ''.. BEGIN HELP TEXT \<newline>'' @
               ''Output of ``nirw-search --help``::\<newline>'' @
               ''\<newline>'' @
               ''   usage\<newline>'' @
               ''\<newline>'' @
               ''.. END HELP TEXT\<newline>'')))"
  by (simp add: eval_defs)

text \<open>
  C3. The scenario of the specification: the help output
  \<^verbatim>\<open>"usage: tool [-h]\n\noptions:\n  -h, --help  show help\n"\<close> and the document
  \<^verbatim>\<open>"intro\n.. BEGIN HELP TEXT\nOLD\n.. END HELP TEXT\nrest\n"\<close> give the intro line, the
  begin marker line, an empty line, the label line of the script without indentation, an
  empty line, the help text with three spaces before each line that is not empty, an empty
  line, the end marker line and the rest line.
\<close>

theorem concrete_scenario:
  "main (Completed 0 ''usage: tool [-h]\<newline>\<newline>options:\<newline>  -h, --help  show help\<newline>'')
     \<lparr>readme = Some ''intro\<newline>.. BEGIN HELP TEXT\<newline>OLD\<newline>.. END HELP TEXT\<newline>rest\<newline>'',
      console = []\<rparr>
   = Inr \<lparr>readme = Some
       (''intro\<newline>'' @
        ''.. BEGIN HELP TEXT\<newline>'' @
        ''\<newline>'' @
        ''Output of ``nirw-search --help``::\<newline>'' @
        ''\<newline>'' @
        ''   usage: tool [-h]\<newline>'' @
        ''\<newline>'' @
        ''   options:\<newline>'' @
        ''     -h, --help  show help\<newline>'' @
        ''\<newline>'' @
        ''.. END HELP TEXT\<newline>'' @
        ''rest\<newline>''),
      console = []\<rparr>"
  by (simp add: eval_defs)

text \<open>
  C10. The splice point is the index of the begin marker plus the length of the marker plus
  one, whatever follows the marker: the one character after the begin marker is kept, and
  nothing in \<^verbatim>\<open>main\<close> looks at it. (There always is such a character, since an end marker
  at or after the begin marker cannot start inside it.)
\<close>

theorem one_character_kept:
  assumes "utf8_decode out = Some txt" and "file_text w = Some data"
    and "first_occurrence help_begin_text data 0 b"
    and "first_occurrence help_end_text data b e"
  shows "b + length help_begin_text < length data
       \<and> main (Completed rc out) w
         = Inr (w\<lparr>readme := Some (utf8_enc (take b data @ help_begin_text
                                     @ [data ! (b + length help_begin_text)]
                                     @ format_help txt @ drop e data))\<rparr>)"
proof -
  have len: "b + length help_begin_text + 1 \<le> length data"
    by (rule splice_point_in_range(3)[OF assms(3,4)])
  have ob: "occurs_at help_begin_text data b"
    using assms(3) by (simp add: first_occurrence_def)
  then obtain t where t: "drop b data = help_begin_text @ t"
    by (auto simp: occurs_at_def prefix_def)
  have "take (length help_begin_text) (drop b data) = help_begin_text" using t by simp
  then have mid: "take (b + length help_begin_text) data = take b data @ help_begin_text"
    by (simp add: take_add)
  have "take (b + length help_begin_text + 1) data
        = take (b + length help_begin_text) data @ [data ! (b + length help_begin_text)]"
    using len by (simp add: take_Suc_conv_app_nth)
  with mid main_splice[OF assms, of rc] len show ?thesis by simp
qed

theorem one_character_kept_witness:
  "first_occurrence help_begin_text (str ''.. BEGIN HELP TEXT.. END HELP TEXT'') 0 0
   \<and> first_occurrence help_end_text (str ''.. BEGIN HELP TEXT.. END HELP TEXT'') 0 18
   \<and> main (Completed 0 ''usage'')
        \<lparr>readme = Some ''.. BEGIN HELP TEXT.. END HELP TEXT'', console = []\<rparr>
     = Inr \<lparr>readme = Some
              (''.. BEGIN HELP TEXT.'' @
               ''\<newline>'' @
               ''Output of ``nirw-search --help``::\<newline>'' @
               ''\<newline>'' @
               ''   usage\<newline>'' @
               ''\<newline>'' @
               ''.. END HELP TEXT''),
            console = []\<rparr>"
proof -
  let ?doc = "''.. BEGIN HELP TEXT.. END HELP TEXT''"
  let ?new = "''.. BEGIN HELP TEXT.\<newline>Output of ``nirw-search --help``::\<newline>\<newline>   usage\<newline>\<newline>.. END HELP TEXT''"
  have d: "utf8_decode ''usage'' = Some (str ''usage'')"
    by (simp add: utf8_decode_def str_def)
  have r: "file_text \<lparr>readme = Some ?doc, console = []\<rparr> = Some (str ?doc)"
    by (simp add: text_defs)
  have f1: "first_occurrence help_begin_text (str ?doc) 0 0"
    by (simp add: first_occurrence_def occurs_at_def help_begin_text_def str_def)
  have f2: "first_occurrence help_end_text (str ?doc) 0 18"
    by (simp add: first_occurrence_def occurs_at_def help_end_text_def str_def upt_rec)
  have t: "take 0 (str ?doc) @ help_begin_text @ [str ?doc ! (0 + length help_begin_text)]
           @ format_help (str ''usage'') @ drop 18 (str ?doc) = str ?new"
    by (simp add: help_begin_text_def format_help_def label_text_def textwrap_indent_def
        splitlines_keepends_def indent_line_def strip_def rstrip_def str_def isspace_def
        linebreak_def)
  have e: "utf8_enc (str ?new) = ?new" by (rule utf8_enc_ascii) simp
  from one_character_kept[OF d r f1 f2, of 0]
  have "main (Completed 0 ''usage'') \<lparr>readme = Some ?doc, console = []\<rparr>
        = Inr \<lparr>readme = Some ?new, console = []\<rparr>"
    unfolding t e by simp
  with f1 f2 show ?thesis by simp
qed

section \<open>The subprocess\<close>

text \<open>
  C6, as the script has it. A child that cannot be started makes \<^verbatim>\<open>subprocess.run\<close> raise,
  and \<^verbatim>\<open>main\<close> ends with that error before it opens the file. The exit status of a
  child that ran is never read: \<^verbatim>\<open>main\<close> does with the captured output of a child that
  exited with any status what it does with that of a child that exited with status 0.
\<close>

theorem exit_status_ignored:
  "main LaunchFailed w = Inl SubprocessLaunchError
   \<and> main (Completed rc out) w = main (Completed 0 out) w"
  by (simp add: main_def)

text \<open>
  A child that exits with status 2 and prints nothing (what \<^verbatim>\<open>python3\<close> does when the
  script it is given does not exist): the old help text is replaced by an empty block, and
  no error is reported.
\<close>

theorem nonzero_exit_spliced_counterexample:
  "main (Completed 2 [])
     \<lparr>readme = Some ''.. BEGIN HELP TEXT\<newline>OLD\<newline>.. END HELP TEXT\<newline>'', console = []\<rparr>
   = Inr \<lparr>readme = Some
       (''.. BEGIN HELP TEXT\<newline>'' @
        ''\<newline>'' @
        ''Output of ``nirw-search --help``::\<newline>'' @
        ''\<newline>'' @
        ''\<newline>'' @
        ''\<newline>'' @
        ''.. END HELP TEXT\<newline>''),
      console = []\<rparr>"
  by (simp add: eval_defs)

section \<open>No help text\<close>

text \<open>
  C8. A child that prints nothing, or only whitespace, is no error: with both markers in
  place the document is rewritten, and what stands between the kept character after the
  begin marker and the end marker is an empty line, the label line, and three more empty
  lines, none of them indented.
\<close>

theorem whitespace_only_output:
  assumes "utf8_decode out = Some txt" and "\<forall>c\<in>set txt. isspace c"
    and "file_text w = Some data"
    and "first_occurrence help_begin_text data 0 b"
    and "first_occurrence help_end_text data b e"
  shows "main (Completed rc out) w
         = Inr (w\<lparr>readme := Some (utf8_enc (take (b + length help_begin_text + 1) data)
                   @ (''\<newline>'' @
                      ''Output of ``nirw-search --help``::\<newline>'' @
                      ''\<newline>'' @
                      ''\<newline>'' @
                      ''\<newline>'')
                   @ utf8_enc (drop e data))\<rparr>)"
proof -
  have "utf8_enc (str ''\<newline>Output of ``nirw-search --help``::\<newline>\<newline>\<newline>\<newline>'')
        = ''\<newline>Output of ``nirw-search --help``::\<newline>\<newline>\<newline>\<newline>''"
    by (rule utf8_enc_ascii) simp
  with main_splice[OF assms(1,3,4,5), of rc]
    format_help_nothing[OF rstrip_all_space[OF assms(2)]]
  show ?thesis by (simp add: utf8_enc_append)
qed

theorem whitespace_only_output_witness:
  "main (Completed 0 '' \<newline>  \<newline>'')
     \<lparr>readme = Some ''intro\<newline>.. BEGIN HELP TEXT\<newline>OLD\<newline>.. END HELP TEXT\<newline>rest\<newline>'',
      console = []\<rparr>
   = Inr \<lparr>readme = Some
       (''intro\<newline>'' @
        ''.. BEGIN HELP TEXT\<newline>'' @
        ''\<newline>'' @
        ''Output of ``nirw-search --help``::\<newline>'' @
        ''\<newline>'' @
        ''\<newline>'' @
        ''\<newline>'' @
        ''.. END HELP TEXT\<newline>'' @
        ''rest\<newline>''),
      console = []\<rparr>
   \<and> main (Completed 0 [])
     \<lparr>readme = Some ''intro\<newline>.. BEGIN HELP TEXT\<newline>OLD\<newline>.. END HELP TEXT\<newline>rest\<newline>'',
      console = []\<rparr>
   = Inr \<lparr>readme = Some
       (''intro\<newline>'' @
        ''.. BEGIN HELP TEXT\<newline>'' @
        ''\<newline>'' @
        ''Output of ``nirw-search --help``::\<newline>'' @
        ''\<newline>'' @
        ''\<newline>'' @
        ''\<newline>'' @
        ''.. END HELP TEXT\<newline>'' @
        ''rest\<newline>''),
      console = []\<rparr>"
proof -
  let ?doc = "''intro\<newline>.. BEGIN HELP TEXT\<newline>OLD\<newline>.. END HELP TEXT\<newline>rest\<newline>''"
  have d: "utf8_decode '' \<newline>  \<newline>'' = Some (str '' \<newline>  \<newline>'')"
    by (simp add: utf8_decode_def str_def)
  have d0: "utf8_decode [] = Some []"
    by (simp add: utf8_decode_def)
  have s: "\<forall>c\<in>set (str '' \<newline>  \<newline>''). isspace c"
    by (simp add: str_def isspace_def)
  have s0: "\<forall>c\<in>set []. isspace c" by simp
  have r: "file_text \<lparr>readme = Some ?doc, console = []\<rparr> = Some (str ?doc)"
    by (simp add: text_defs)
  have f1: "first_occurrence help_begin_text (str ?doc) 0 6"
    by (simp add: first_occurrence_def occurs_at_def help_begin_text_def str_def upt_rec)
  have f2: "first_occurrence help_end_text (str ?doc) 6 29"
    by (simp add: first_occurrence_def occurs_at_def help_end_text_def str_def upt_rec)
  have t: "take 25 (str ?doc) = str ''intro\<newline>.. BEGIN HELP TEXT\<newline>''"
    "drop 29 (str ?doc) = str ''.. END HELP TEXT\<newline>rest\<newline>''"
    by (simp_all add: str_def)
  have e: "utf8_enc (str ''intro\<newline>.. BEGIN HELP TEXT\<newline>'') = ''intro\<newline>.. BEGIN HELP TEXT\<newline>''"
    "utf8_enc (str ''.. END HELP TEXT\<newline>rest\<newline>'') = ''.. END HELP TEXT\<newline>rest\<newline>''"
    by (rule utf8_enc_ascii, simp)+
  from whitespace_only_output[OF d s r f1 f2, of 0] whitespace_only_output[OF d0 s0 r f1 f2, of 0]
  show ?thesis
    by (simp add: help_begin_text_length t e)
qed

section \<open>Markers that occur more than once\<close>

text \<open>
  C9, as the script has it. Nothing checks that a marker occurs once. Whatever else the
  document holds, \<^verbatim>\<open>main\<close> splices at the first begin marker and at the first end marker
  at or after it, and every occurrence of the end marker at or after the begin marker
  starts at or after the chosen one. A marker, begin or end, occurs in the written text at
  exactly these indices: where it occurred in the old text and ended at or before the
  splice point; where it occurs inside the new block; and, moved by the change in length,
  where it occurred in the old text at or after the chosen end marker.
\<close>

theorem later_occurrences:
  assumes "utf8_decode out = Some txt" and "file_text w = Some data"
    and "first_occurrence help_begin_text data 0 b"
    and "first_occurrence help_end_text data b e"
    and "marker = help_begin_text \<or> marker = help_end_text"
  shows "\<exists>upd sp n.
           main (Completed rc out) w = Inr (w\<lparr>readme := Some (utf8_enc upd)\<rparr>)
         \<and> sp = b + length help_begin_text + 1
         \<and> n = length (format_help txt)
         \<and> upd = take sp data @ format_help txt @ drop e data
         \<and> (\<forall>i. b \<le> i \<and> occurs_at help_end_text data i \<longrightarrow> e \<le> i)
         \<and> (\<forall>j. occurs_at marker upd j =
                ((j + length marker \<le> sp \<and> occurs_at marker data j)
                 \<or> (sp \<le> j \<and> j + length marker \<le> sp + n
                     \<and> occurs_at marker (format_help txt) (j - sp))
                 \<or> (sp + n \<le> j \<and> occurs_at marker data (j - (sp + n) + e))))"
proof -
  define sp where "sp = b + length help_begin_text + 1"
  define upd where "upd = take sp data @ format_help txt @ drop e data"
  have m: "main (Completed rc out) w = Inr (w\<lparr>readme := Some (utf8_enc upd)\<rparr>)"
    unfolding upd_def sp_def by (rule main_splice[OF assms(1-4)])
  have len: "sp \<le> length data" "e \<le> length data"
    unfolding sp_def using splice_point_in_range[OF assms(3,4)] by simp_all
  have 1: "\<forall>i. b \<le> i \<and> occurs_at help_end_text data i \<longrightarrow> e \<le> i"
    using assms(4) by (auto simp: first_occurrence_iff simp flip: not_less)
  from format_help_ends[of "txt"] obtain body where body: "format_help txt = 10 # body @ [10]" ..
  have nl: "10 \<notin> set marker"
    using assms(5) help_begin_text_no_newline help_end_text_no_newline by auto
  have 2: "\<forall>j. occurs_at marker upd j =
                ((j + length marker \<le> sp \<and> occurs_at marker data j)
                 \<or> (sp \<le> j \<and> j + length marker \<le> sp + length (format_help txt)
                     \<and> occurs_at marker (format_help txt) (j - sp))
                 \<or> (sp + length (format_help txt) \<le> j
                     \<and> occurs_at marker data (j - (sp + length (format_help txt)) + e)))"
    unfolding upd_def using occurs_at_spliced[OF nl body len] by blast
  from m 1 2 show ?thesis unfolding upd_def sp_def by blast
qed


theorem later_occurrences_witness:
  "\<exists>upd.
     main (Completed 0 ''usage'')
       \<lparr>readme = Some ''.. BEGIN HELP TEXT\<newline>OLD\<newline>.. END HELP TEXT\<newline>.. BEGIN HELP TEXT\<newline>.. END HELP TEXT\<newline>'',
        console = []\<rparr>
     = Inr \<lparr>readme = Some (utf8_enc upd), console = []\<rparr>
   \<and> upd = str (''.. BEGIN HELP TEXT\<newline>'' @
               ''\<newline>Output of ``nirw-search --help``::\<newline>\<newline>   usage\<newline>\<newline>'' @
               ''.. END HELP TEXT\<newline>.. BEGIN HELP TEXT\<newline>.. END HELP TEXT\<newline>'')
   \<and> occurs_at help_begin_text upd 0
   \<and> occurs_at help_end_text upd 66
   \<and> occurs_at help_begin_text upd 83
   \<and> occurs_at help_end_text upd 102
   \<and> \<not> occurs_at help_begin_text upd 40"
proof -
  let ?doc = "''.. BEGIN HELP TEXT\<newline>OLD\<newline>.. END HELP TEXT\<newline>.. BEGIN HELP TEXT\<newline>.. END HELP TEXT\<newline>''"
  let ?W = "\<lparr>readme = Some ?doc, console = []\<rparr>"
  let ?new = "str (''.. BEGIN HELP TEXT\<newline>'' @
               ''\<newline>Output of ``nirw-search --help``::\<newline>\<newline>   usage\<newline>\<newline>'' @
               ''.. END HELP TEXT\<newline>.. BEGIN HELP TEXT\<newline>.. END HELP TEXT\<newline>'')"
  have d: "utf8_decode ''usage'' = Some (str ''usage'')"
    by (simp add: utf8_decode_def str_def)
  have r: "file_text ?W = Some (str ?doc)" by (simp add: text_defs)
  have f1: "first_occurrence help_begin_text (str ?doc) 0 0"
    by (simp add: first_occurrence_def occurs_at_def help_begin_text_def str_def)
  have f2: "first_occurrence help_end_text (str ?doc) 0 23"
    by (simp add: first_occurrence_def occurs_at_def help_end_text_def str_def upt_rec)
  have fh: "format_help (str ''usage'')
            = str ''\<newline>Output of ``nirw-search --help``::\<newline>\<newline>   usage\<newline>\<newline>''"
    by (simp add: format_help_def label_text_def textwrap_indent_def
        splitlines_keepends_def indent_line_def strip_def rstrip_def str_def isspace_def
        linebreak_def)
  have n: "length (format_help (str ''usage'')) = 47" unfolding fh by (simp add: str_def)
  have t: "take 19 (str ?doc) @ format_help (str ''usage'') @ drop 23 (str ?doc) = ?new"
    unfolding fh by (simp add: str_def)
  have ob: "occurs_at help_begin_text (str ?doc) 0" "occurs_at help_begin_text (str ?doc) 40"
    "\<not> occurs_at help_begin_text (format_help (str ''usage'')) 21"
    unfolding fh by (simp_all add: occurs_at_def help_begin_text_def str_def)
  have oe: "occurs_at help_end_text (str ?doc) 23" "occurs_at help_end_text (str ?doc) 59"
    by (simp_all add: occurs_at_def help_end_text_def str_def)
  from later_occurrences[OF d r f1 f2, of help_begin_text 0]
  obtain u1 where u1: "main (Completed 0 ''usage'') ?W = Inr (?W\<lparr>readme := Some (utf8_enc u1)\<rparr>)"
    "u1 = take (0 + length help_begin_text + 1) (str ?doc) @ format_help (str ''usage'')
          @ drop 23 (str ?doc)"
    "\<forall>j. occurs_at help_begin_text u1 j =
       ((j + length help_begin_text \<le> 0 + length help_begin_text + 1
         \<and> occurs_at help_begin_text (str ?doc) j)
        \<or> (0 + length help_begin_text + 1 \<le> j
            \<and> j + length help_begin_text
              \<le> 0 + length help_begin_text + 1 + length (format_help (str ''usage''))
            \<and> occurs_at help_begin_text (format_help (str ''usage''))
                (j - (0 + length help_begin_text + 1)))
        \<or> (0 + length help_begin_text + 1 + length (format_help (str ''usage'')) \<le> j
            \<and> occurs_at help_begin_text (str ?doc)
                (j - (0 + length help_begin_text + 1 + length (format_help (str ''usage'')))
                 + 23)))"
    by auto
  from later_occurrences[OF d r f1 f2, of help_end_text 0]
  have u2: "\<forall>j. occurs_at help_end_text u1 j =
       ((j + length help_end_text \<le> 0 + length help_begin_text + 1
         \<and> occurs_at help_end_text (str ?doc) j)
        \<or> (0 + length help_begin_text + 1 \<le> j
            \<and> j + length help_end_text
              \<le> 0 + length help_begin_text + 1 + length (format_help (str ''usage''))
            \<and> occurs_at help_end_text (format_help (str ''usage''))
                (j - (0 + length help_begin_text + 1)))
        \<or> (0 + length help_begin_text + 1 + length (format_help (str ''usage'')) \<le> j
            \<and> occurs_at help_end_text (str ?doc)
                (j - (0 + length help_begin_text + 1 + length (format_help (str ''usage'')))
                 + 23)))"
    unfolding u1(2) by auto
  have new: "u1 = ?new" using u1(2) t by (simp add: help_begin_text_length)
  have b0: "occurs_at help_begin_text u1 0"
    using u1(3)[THEN spec, of 0] ob(1) by (simp add: help_begin_text_length)
  have b83: "occurs_at help_begin_text u1 83"
    using u1(3)[THEN spec, of 83] ob(2) by (simp add: help_begin_text_length n)
  have b40: "\<not> occurs_at help_begin_text u1 40"
    using u1(3)[THEN spec, of 40] ob(3) by (simp add: help_begin_text_length n)
  have e66: "occurs_at help_end_text u1 66"
    using u2[THEN spec, of 66] oe(1) by (simp add: help_begin_text_length help_end_text_length n)
  have e102: "occurs_at help_end_text u1 102"
    using u2[THEN spec, of 102] oe(2) by (simp add: help_begin_text_length help_end_text_length n)
  from u1(1) new b0 e66 b83 e102 b40 show ?thesis by auto
qed

text \<open>
  A second begin marker before the first end marker is a later marker occurrence that does
  not lie in the kept suffix: it is part of what is replaced, and the written text has one
  begin marker only.
\<close>

theorem later_begin_marker_removed_counterexample:
  "occurrences help_begin_text
     (str ''.. BEGIN HELP TEXT\<newline>.. BEGIN HELP TEXT\<newline>OLD\<newline>.. END HELP TEXT\<newline>'')
   = [0, 19]
   \<and> main (Completed 0 ''usage'')
       \<lparr>readme = Some ''.. BEGIN HELP TEXT\<newline>.. BEGIN HELP TEXT\<newline>OLD\<newline>.. END HELP TEXT\<newline>'',
        console = []\<rparr>
     = Inr \<lparr>readme = Some
         (''.. BEGIN HELP TEXT\<newline>'' @
          ''\<newline>'' @
          ''Output of ``nirw-search --help``::\<newline>'' @
          ''\<newline>'' @
          ''   usage\<newline>'' @
          ''\<newline>'' @
          ''.. END HELP TEXT\<newline>''),
        console = []\<rparr>
   \<and> occurrences help_begin_text (str
         (''.. BEGIN HELP TEXT\<newline>'' @
          ''\<newline>'' @
          ''Output of ``nirw-search --help``::\<newline>'' @
          ''\<newline>'' @
          ''   usage\<newline>'' @
          ''\<newline>'' @
          ''.. END HELP TEXT\<newline>''))
   = [0]"
proof (intro conjI)
  show "occurrences help_begin_text
     (str ''.. BEGIN HELP TEXT\<newline>.. BEGIN HELP TEXT\<newline>OLD\<newline>.. END HELP TEXT\<newline>'')
   = [0, 19]"
    by (simp add: occurrences_def occurs_at_def help_begin_text_def str_def upt_rec)
  show "main (Completed 0 ''usage'')
       \<lparr>readme = Some ''.. BEGIN HELP TEXT\<newline>.. BEGIN HELP TEXT\<newline>OLD\<newline>.. END HELP TEXT\<newline>'',
        console = []\<rparr>
     = Inr \<lparr>readme = Some
         (''.. BEGIN HELP TEXT\<newline>'' @
          ''\<newline>'' @
          ''Output of ``nirw-search --help``::\<newline>'' @
          ''\<newline>'' @
          ''   usage\<newline>'' @
          ''\<newline>'' @
          ''.. END HELP TEXT\<newline>''),
        console = []\<rparr>"
    by (simp add: eval_defs)
  show "occurrences help_begin_text (str
         (''.. BEGIN HELP TEXT\<newline>'' @
          ''\<newline>'' @
          ''Output of ``nirw-search --help``::\<newline>'' @
          ''\<newline>'' @
          ''   usage\<newline>'' @
          ''\<newline>'' @
          ''.. END HELP TEXT\<newline>''))
   = [0]"
    by (simp add: occurrences_def occurs_at_def help_begin_text_def str_def upt_rec)
qed

section \<open>The formatted block\<close>

text \<open>
  C5, as the script has it. Bytes that are not UTF-8 end \<^verbatim>\<open>main\<close> with a
  \<^verbatim>\<open>UnicodeDecodeError\<close>; otherwise the decoded text is the text whose encoding the bytes
  are. It loses its trailing whitespace and nothing else (what is cut off is whitespace
  only, and what is left does not end in whitespace) and gets exactly two newline
  characters. The block is an empty line, the fixed label line, an empty line, and then
  the lines of that text in order, each line that has a character other than whitespace
  after three spaces and each other line, the last empty one among them, as it is. This
  block is what is spliced in.
\<close>

theorem formatted_block_pipeline:
  "(utf8_decode out = None \<longrightarrow> main (Completed rc out) w = Inl UnicodeDecodeError)
   \<and> (\<forall>t data b e.
         utf8_decode out = Some t \<and> file_text w = Some data
         \<and> first_occurrence help_begin_text data 0 b \<and> first_occurrence help_end_text data b e
         \<longrightarrow>
         (\<exists>stripped ws lines block.
             utf8_enc t = out \<and> list_all scalar t
           \<and> stripped = rstrip t
           \<and> t = stripped @ ws \<and> blank ws
           \<and> (stripped = [] \<or> \<not> isspace (last stripped))
           \<and> lines = splitlines_keepends (stripped @ str ''\<newline>\<newline>'')
           \<and> concat lines = stripped @ str ''\<newline>\<newline>'' \<and> proper_lines lines
           \<and> block = str ''\<newline>'' @ str ''Output of ``nirw-search --help``::\<newline>''
                     @ str ''\<newline>''
                     @ concat (map (\<lambda>l. if blank l then l else str ''   '' @ l) lines)
           \<and> main (Completed rc out) w
             = Inr (w\<lparr>readme := Some (utf8_enc (take (b + length help_begin_text + 1) data
                                                 @ block @ drop e data))\<rparr>)))"
proof (intro conjI impI allI)
  assume "utf8_decode out = None"
  then show "main (Completed rc out) w = Inl UnicodeDecodeError" by (rule main_decode_error)
next
  fix t data b e
  assume a: "utf8_decode out = Some t \<and> file_text w = Some data
         \<and> first_occurrence help_begin_text data 0 b \<and> first_occurrence help_end_text data b e"
  let ?lines = "splitlines_keepends (rstrip t @ str ''\<newline>\<newline>'')"
  let ?block = "str ''\<newline>'' @ str ''Output of ``nirw-search --help``::\<newline>''
                     @ str ''\<newline>''
                     @ concat (map (\<lambda>l. if blank l then l else str ''   '' @ l) ?lines)"
  from a have d: "utf8_decode out = Some t" by simp
  from rstrip_decomp[of t] obtain ws where ws: "t = rstrip t @ ws" "\<forall>c\<in>set ws. isspace c"
    "rstrip t = [] \<or> \<not> isspace (last (rstrip t))" by blast
  have b: "blank ws" using ws(2) by (simp add: blank_def list_all_iff)
  have c: "concat ?lines = rstrip t @ str ''\<newline>\<newline>''" by (rule concat_splitlines)
  have p: "proper_lines ?lines" by (rule proper_lines_splitlines)
  have m: "main (Completed rc out) w
        = Inr (w\<lparr>readme := Some (utf8_enc (take (b + length help_begin_text + 1) data
             @ ?block @ drop e data))\<rparr>)"
    using a main_splice[of out t w data b e rc] format_help_lines[of t] by simp
  from utf8_enc_decode[OF d] ws(1,3) b c p m
  show "\<exists>stripped ws lines block.
             utf8_enc t = out \<and> list_all scalar t
           \<and> stripped = rstrip t
           \<and> t = stripped @ ws \<and> blank ws
           \<and> (stripped = [] \<or> \<not> isspace (last stripped))
           \<and> lines = splitlines_keepends (stripped @ str ''\<newline>\<newline>'')
           \<and> concat lines = stripped @ str ''\<newline>\<newline>'' \<and> proper_lines lines
           \<and> block = str ''\<newline>'' @ str ''Output of ``nirw-search --help``::\<newline>''
                     @ str ''\<newline>''
                     @ concat (map (\<lambda>l. if blank l then l else str ''   '' @ l) lines)
           \<and> main (Completed rc out) w
             = Inr (w\<lparr>readme := Some (utf8_enc (take (b + length help_begin_text + 1) data
                                                 @ block @ drop e data))\<rparr>)"
    by blast
qed

theorem formatted_block_pipeline_witness:
  "main (Completed 0 [CHR 0xFF])
     \<lparr>readme = Some ''intro\<newline>.. BEGIN HELP TEXT\<newline>OLD\<newline>.. END HELP TEXT\<newline>rest\<newline>'',
      console = []\<rparr>
   = Inl UnicodeDecodeError
   \<and> main (Completed 0 (''caf'' @ [CHR 0xC3, CHR 0xA9] @ ''\<newline>\<newline>  x  \<newline> \<newline>''))
         \<lparr>readme = Some ''intro\<newline>.. BEGIN HELP TEXT\<newline>OLD\<newline>.. END HELP TEXT\<newline>rest\<newline>'',
          console = []\<rparr>
     = Inr \<lparr>readme = Some
              (''intro\<newline>'' @
               ''.. BEGIN HELP TEXT\<newline>'' @
               ''\<newline>'' @
               ''Output of ``nirw-search --help``::\<newline>'' @
               ''\<newline>'' @
               ''   caf'' @ [CHR 0xC3, CHR 0xA9] @ ''\<newline>'' @
               ''\<newline>'' @
               ''     x\<newline>'' @
               ''\<newline>'' @
               ''.. END HELP TEXT\<newline>'' @
               ''rest\<newline>''),
            console = []\<rparr>"
proof -
  let ?doc = "''intro\<newline>.. BEGIN HELP TEXT\<newline>OLD\<newline>.. END HELP TEXT\<newline>rest\<newline>''"
  let ?out = "''caf'' @ [CHR 0xC3, CHR 0xA9] @ ''\<newline>\<newline>  x  \<newline> \<newline>''"
  let ?t = "str ''caf'' @ [233] @ str ''\<newline>\<newline>  x  \<newline> \<newline>''"
  let ?W = "\<lparr>readme = Some ?doc, console = []\<rparr>"
  have d0: "utf8_decode [CHR 0xFF] = None"
    by (simp add: utf8_decode_def)
  have d: "utf8_decode ?out = Some ?t"
    by (simp add: utf8_decode_def str_def cont_def)
  have r: "file_text ?W = Some (str ?doc)" by (simp add: text_defs)
  have f1: "first_occurrence help_begin_text (str ?doc) 0 6"
    by (simp add: first_occurrence_def occurs_at_def help_begin_text_def str_def upt_rec)
  have f2: "first_occurrence help_end_text (str ?doc) 6 29"
    by (simp add: first_occurrence_def occurs_at_def help_end_text_def str_def upt_rec)
  have 1: "main (Completed 0 [CHR 0xFF]) ?W = Inl UnicodeDecodeError"
    using formatted_block_pipeline[of "[CHR 0xFF]" 0 ?W] d0 by blast
  from formatted_block_pipeline[of ?out 0 ?W, THEN conjunct2, rule_format, of ?t "str ?doc" 6 29]
    d r f1 f2
  obtain stripped lines block where
    s: "stripped = rstrip ?t"
       "lines = splitlines_keepends (stripped @ str ''\<newline>\<newline>'')"
       "block = str ''\<newline>'' @ str ''Output of ``nirw-search --help``::\<newline>''
                 @ str ''\<newline>''
                 @ concat (map (\<lambda>l. if blank l then l else str ''   '' @ l) lines)"
       "main (Completed 0 ?out) ?W
         = Inr (?W\<lparr>readme := Some (utf8_enc (take (6 + length help_begin_text + 1) (str ?doc)
                                             @ block @ drop 29 (str ?doc)))\<rparr>)"
    by blast
  have "stripped = str ''caf'' @ [233] @ str ''\<newline>\<newline>  x''"
    unfolding s(1) by (simp add: rstrip_def str_def isspace_def)
  then have "lines = [str ''caf'' @ [233, 10], [10], str ''  x\<newline>'', [10]]"
    unfolding s(2) by (simp add: splitlines_keepends_def str_def linebreak_def)
  then have "block = str ''\<newline>Output of ``nirw-search --help``::\<newline>\<newline>   caf''
                    @ [233, 10, 10] @ str ''     x\<newline>\<newline>''"
    unfolding s(3) by (simp add: blank_def isspace_def str_def)
  then have "utf8_enc (take (6 + length help_begin_text + 1) (str ?doc) @ block
                       @ drop 29 (str ?doc))
        = ''intro\<newline>'' @
               ''.. BEGIN HELP TEXT\<newline>'' @
               ''\<newline>'' @
               ''Output of ``nirw-search --help``::\<newline>'' @
               ''\<newline>'' @
               ''   caf'' @ [CHR 0xC3, CHR 0xA9] @ ''\<newline>'' @
               ''\<newline>'' @
               ''     x\<newline>'' @
               ''\<newline>'' @
               ''.. END HELP TEXT\<newline>'' @
               ''rest\<newline>''"
    by (simp add: help_begin_text_def str_def utf8_enc_def utf8_enc1_def char_of_eq_iff)
  with s(4) 1 show ?thesis by simp
qed

text \<open>
  The block as the specification words it has no empty line before the label and has three
  spaces on every line, the empty ones too: for the help output \<^verbatim>\<open>"a\n\nb"\<close> it is not
  the block that the script writes, and it is not that block either when an empty line is
  put before the label.
\<close>

theorem block_not_as_specified_counterexample:
  "utf8_decode ''a\<newline>\<newline>b'' = Some (str ''a\<newline>\<newline>b'')
   \<and> format_help (str ''a\<newline>\<newline>b'')
     = str (''\<newline>'' @
            ''Output of ``nirw-search --help``::\<newline>'' @
            ''\<newline>'' @
            ''   a\<newline>'' @
            ''\<newline>'' @
            ''   b\<newline>'' @
            ''\<newline>'')
   \<and> block_as_specified (str ''a\<newline>\<newline>b'')
     = str (''Output of ``nirw-search --help``::\<newline>'' @
            ''\<newline>'' @
            ''   a\<newline>'' @
            ''   \<newline>'' @
            ''   b\<newline>'' @
            ''   \<newline>'')
   \<and> format_help (str ''a\<newline>\<newline>b'') \<noteq> block_as_specified (str ''a\<newline>\<newline>b'')
   \<and> format_help (str ''a\<newline>\<newline>b'')
     \<noteq> str ''\<newline>'' @ block_as_specified (str ''a\<newline>\<newline>b'')
   \<and> main (Completed 0 ''a\<newline>\<newline>b'')
       \<lparr>readme = Some ''.. BEGIN HELP TEXT\<newline>OLD\<newline>.. END HELP TEXT\<newline>'', console = []\<rparr>
     = Inr \<lparr>readme = Some
         (''.. BEGIN HELP TEXT\<newline>'' @
          ''\<newline>'' @
          ''Output of ``nirw-search --help``::\<newline>'' @
          ''\<newline>'' @
          ''   a\<newline>'' @
          ''\<newline>'' @
          ''   b\<newline>'' @
          ''\<newline>'' @
          ''.. END HELP TEXT\<newline>''),
        console = []\<rparr>"
  by (simp add: eval_defs block_as_specified_def label_line_def)

text \<open>
  C4, as the script has it. With \<open>H\<close> the decoded output without its trailing whitespace
  and with two newline characters added, the lines of the written text are, in this order:
  the lines of the kept text up to the splice point, closed by the first newline of the
  block; the label line, not indented; an empty line; the lines of \<open>H\<close>, each line that
  has a character other than whitespace after exactly three spaces and each empty or
  all-whitespace line unchanged; the lines of the kept text from the end marker on.
\<close>

theorem indentation_contract:
  assumes "utf8_decode out = Some txt" and "file_text w = Some data"
    and "first_occurrence help_begin_text data 0 b"
    and "first_occurrence help_end_text data b e"
  shows "\<exists>upd help_lines.
            main (Completed rc out) w = Inr (w\<lparr>readme := Some (utf8_enc upd)\<rparr>)
          \<and> help_lines = splitlines_keepends (rstrip txt @ str ''\<newline>\<newline>'')
          \<and> concat help_lines = rstrip txt @ str ''\<newline>\<newline>'' \<and> proper_lines help_lines
          \<and> splitlines_keepends upd
            = splitlines_keepends (take (b + length help_begin_text + 1) data @ str ''\<newline>'')
              @ [str ''Output of ``nirw-search --help``::\<newline>'', str ''\<newline>'']
              @ map (\<lambda>l. if blank l then l else str ''   '' @ l) help_lines
              @ splitlines_keepends (drop e data)
          \<and> concat (splitlines_keepends upd) = upd \<and> proper_lines (splitlines_keepends upd)"
proof -
  define upd where "upd = take (b + length help_begin_text + 1) data @ format_help txt @ drop e data"
  have m: "main (Completed rc out) w = Inr (w\<lparr>readme := Some (utf8_enc upd)\<rparr>)"
    unfolding upd_def by (rule main_splice[OF assms])
  have i: "indent_line (str ''   '') = (\<lambda>l. if blank l then l else str ''   '' @ l)"
    by (rule ext) (rule indent_line_blank)
  have nl: "str ''\<newline>'' = [10]" by (simp add: str_def)
  have l: "splitlines_keepends upd
     = splitlines_keepends (take (b + length help_begin_text + 1) data @ str ''\<newline>'')
       @ [str ''Output of ``nirw-search --help``::\<newline>'', str ''\<newline>'']
       @ map (\<lambda>l. if blank l then l else str ''   '' @ l)
           (splitlines_keepends (rstrip txt @ str ''\<newline>\<newline>''))
       @ splitlines_keepends (drop e data)"
    unfolding upd_def lines_of_splice i label_line_def nl by simp
  from m l concat_splitlines proper_lines_splitlines show ?thesis by blast
qed

theorem indentation_contract_witness:
  "\<exists>upd.
     main (Completed 0 ''usage: tool [-h]\<newline>\<newline>options:\<newline>  -h, --help  show help\<newline>'')
       \<lparr>readme = Some ''intro\<newline>.. BEGIN HELP TEXT\<newline>OLD\<newline>.. END HELP TEXT\<newline>rest\<newline>'',
        console = []\<rparr>
     = Inr \<lparr>readme = Some (utf8_enc upd), console = []\<rparr>
   \<and> splitlines_keepends upd
     = [str ''intro\<newline>'',
        str ''.. BEGIN HELP TEXT\<newline>'',
        str ''\<newline>'',
        str ''Output of ``nirw-search --help``::\<newline>'',
        str ''\<newline>'',
        str ''   usage: tool [-h]\<newline>'',
        str ''\<newline>'',
        str ''   options:\<newline>'',
        str ''     -h, --help  show help\<newline>'',
        str ''\<newline>'',
        str ''.. END HELP TEXT\<newline>'',
        str ''rest\<newline>'']"
proof -
  let ?doc = "''intro\<newline>.. BEGIN HELP TEXT\<newline>OLD\<newline>.. END HELP TEXT\<newline>rest\<newline>''"
  let ?out = "''usage: tool [-h]\<newline>\<newline>options:\<newline>  -h, --help  show help\<newline>''"
  let ?W = "\<lparr>readme = Some ?doc, console = []\<rparr>"
  have d: "utf8_decode ?out = Some (str ?out)"
    by (simp add: utf8_decode_def str_def)
  have r: "file_text ?W = Some (str ?doc)" by (simp add: text_defs)
  have f1: "first_occurrence help_begin_text (str ?doc) 0 6"
    by (simp add: first_occurrence_def occurs_at_def help_begin_text_def str_def upt_rec)
  have f2: "first_occurrence help_end_text (str ?doc) 6 29"
    by (simp add: first_occurrence_def occurs_at_def help_end_text_def str_def upt_rec)
  have l: "splitlines_keepends (rstrip (str ?out) @ str ''\<newline>\<newline>'')
     = [str ''usage: tool [-h]\<newline>'', str ''\<newline>'', str ''options:\<newline>'',
        str ''  -h, --help  show help\<newline>'', str ''\<newline>'']"
    by (simp add: splitlines_keepends_def rstrip_def str_def linebreak_def isspace_def)
  have p: "splitlines_keepends (take (6 + length help_begin_text + 1) (str ?doc) @ str ''\<newline>'')
           = [str ''intro\<newline>'', str ''.. BEGIN HELP TEXT\<newline>'', str ''\<newline>'']"
    "splitlines_keepends (drop 29 (str ?doc)) = [str ''.. END HELP TEXT\<newline>'', str ''rest\<newline>'']"
    by (simp_all add: splitlines_keepends_def help_begin_text_def str_def linebreak_def)
  from indentation_contract[OF d r f1 f2, of 0] obtain upd where
    u: "main (Completed 0 ?out) ?W = Inr (?W\<lparr>readme := Some (utf8_enc upd)\<rparr>)"
       "splitlines_keepends upd
        = splitlines_keepends (take (6 + length help_begin_text + 1) (str ?doc) @ str ''\<newline>'')
          @ [str ''Output of ``nirw-search --help``::\<newline>'', str ''\<newline>'']
          @ map (\<lambda>l. if blank l then l else str ''   '' @ l)
              (splitlines_keepends (rstrip (str ?out) @ str ''\<newline>\<newline>''))
          @ splitlines_keepends (drop 29 (str ?doc))"
    by blast
  from u(2) have "splitlines_keepends upd
     = [str ''intro\<newline>'',
        str ''.. BEGIN HELP TEXT\<newline>'',
        str ''\<newline>'',
        str ''Output of ``nirw-search --help``::\<newline>'',
        str ''\<newline>'',
        str ''   usage: tool [-h]\<newline>'',
        str ''\<newline>'',
        str ''   options:\<newline>'',
        str ''     -h, --help  show help\<newline>'',
        str ''\<newline>'',
        str ''.. END HELP TEXT\<newline>'',
        str ''rest\<newline>'']"
    unfolding l p by (simp add: blank_def str_def isspace_def)
  with u(1) show ?thesis by auto
qed

text \<open>
  The empty second line of the specification's own help output is a line of the captured
  output, and no line of the written text is that line with three spaces before it.
\<close>

theorem blank_line_not_indented_counterexample:
  "utf8_decode ''usage: tool [-h]\<newline>\<newline>options:\<newline>  -h, --help  show help\<newline>''
   = Some (str ''usage: tool [-h]\<newline>\<newline>options:\<newline>  -h, --help  show help\<newline>'')
   \<and> splitlines_keepends (str ''usage: tool [-h]\<newline>\<newline>options:\<newline>  -h, --help  show help\<newline>'')
     = [str ''usage: tool [-h]\<newline>'', str ''\<newline>'', str ''options:\<newline>'',
        str ''  -h, --help  show help\<newline>'']
   \<and> main (Completed 0 ''usage: tool [-h]\<newline>\<newline>options:\<newline>  -h, --help  show help\<newline>'')
       \<lparr>readme = Some ''intro\<newline>.. BEGIN HELP TEXT\<newline>OLD\<newline>.. END HELP TEXT\<newline>rest\<newline>'',
        console = []\<rparr>
     = Inr \<lparr>readme = Some ''intro\<newline>.. BEGIN HELP TEXT\<newline>\<newline>Output of ``nirw-search --help``::\<newline>\<newline>   usage: tool [-h]\<newline>\<newline>   options:\<newline>     -h, --help  show help\<newline>\<newline>.. END HELP TEXT\<newline>rest\<newline>'',
            console = []\<rparr>
   \<and> splitlines_keepends (str ''intro\<newline>.. BEGIN HELP TEXT\<newline>\<newline>Output of ``nirw-search --help``::\<newline>\<newline>   usage: tool [-h]\<newline>\<newline>   options:\<newline>     -h, --help  show help\<newline>\<newline>.. END HELP TEXT\<newline>rest\<newline>'')
     = [str ''intro\<newline>'', str ''.. BEGIN HELP TEXT\<newline>'', str ''\<newline>'',
        str ''Output of ``nirw-search --help``::\<newline>'', str ''\<newline>'',
        str ''   usage: tool [-h]\<newline>'', str ''\<newline>'', str ''   options:\<newline>'',
        str ''     -h, --help  show help\<newline>'', str ''\<newline>'',
        str ''.. END HELP TEXT\<newline>'', str ''rest\<newline>'']
   \<and> str ''   \<newline>'' \<notin> set
       [str ''intro\<newline>'', str ''.. BEGIN HELP TEXT\<newline>'', str ''\<newline>'',
        str ''Output of ``nirw-search --help``::\<newline>'', str ''\<newline>'',
        str ''   usage: tool [-h]\<newline>'', str ''\<newline>'', str ''   options:\<newline>'',
        str ''     -h, --help  show help\<newline>'', str ''\<newline>'',
        str ''.. END HELP TEXT\<newline>'', str ''rest\<newline>'']"
  by (simp add: eval_defs)

section \<open>Running the script twice\<close>

text \<open>
  C7, as the script has it. When the decoded help output does not contain the end marker,
  a second run with the same captured output on the file the first run wrote writes the
  same bytes again.
\<close>

theorem splice_idempotent:
  assumes "utf8_decode out = Some txt" and "file_text w = Some data"
    and "first_occurrence help_begin_text data 0 b"
    and "first_occurrence help_end_text data b e"
    and "absent_from help_end_text txt 0"
  shows "\<exists>w1. main (Completed rc out) w = Inr w1 \<and> main (Completed rc out) w1 = Inr w1"
proof -
  define sp where "sp = b + length help_begin_text + 1"
  define blk where "blk = format_help txt"
  define upd where "upd = take sp data @ blk @ drop e data"
  define w1 where "w1 = w\<lparr>readme := Some (utf8_enc upd)\<rparr>"
  define blk' where "blk' = universal_newlines blk"
  define data' where "data' = take sp data @ blk' @ drop e data"
  have 1: "main (Completed rc out) w = Inr w1"
    unfolding w1_def upd_def sp_def blk_def by (rule main_splice[OF assms(1-4)])
  from assms(2) obtain raw where raw: "read_text raw = Some data" by (rule file_textD)
  from format_help_ends[of "txt"] obtain body where body: "blk = 10 # body @ [10]"
    unfolding blk_def ..
  have sc: "list_all scalar blk"
    unfolding blk_def by (rule scalar_format_help[OF utf8_enc_decode(1)[OF assms(1)]])
  have "read_text (utf8_enc upd) = Some data'"
    unfolding upd_def data'_def blk'_def by (rule reread_spliced[OF raw sc body])
  then have ft: "file_text w1 = Some data'" by (simp add: w1_def file_text_def)
  from reread_block[OF body] obtain body' where body': "blk' = 10 # body' @ [10]"
    unfolding blk'_def ..
  have "\<not> sublist help_end_text txt" using assms(5) by (simp add: absent_from_sublist)
  then have "\<not> sublist help_end_text blk" unfolding blk_def using end_marker_in_block by blast
  moreover have "13 \<notin> set help_end_text" by (simp add: help_end_text_def str_def)
  ultimately have nb: "\<not> sublist help_end_text blk'"
    unfolding blk'_def
    using sublist_universal_newlines[OF help_end_text_facts(1) help_end_text_no_newline]
    by blast
  have f1: "first_occurrence help_begin_text data' 0 b"
    and f2: "first_occurrence help_end_text data' b (sp + length blk')"
    unfolding data'_def sp_def by (rule respliced_markers[OF assms(3,4) body' nb])+
  have len: "sp \<le> length data"
    unfolding sp_def by (rule splice_point_in_range(3)[OF assms(3,4)])
  have "main (Completed rc out) w1
        = Inr (w1\<lparr>readme := Some (utf8_enc (take (b + length help_begin_text + 1) data'
                     @ format_help txt @ drop (sp + length blk') data'))\<rparr>)"
    by (rule main_splice[OF assms(1) ft f1 f2])
  also have "take (b + length help_begin_text + 1) data' = take sp data"
    using len by (simp add: data'_def sp_def)
  also have "drop (sp + length blk') data' = drop e data"
    using len by (simp add: data'_def)
  finally have "main (Completed rc out) w1 = Inr w1" by (simp add: w1_def upd_def blk_def)
  with 1 show ?thesis by blast
qed

theorem splice_idempotent_witness:
  "main (Completed 0 ''usage: tool [-h]\<newline>\<newline>options:\<newline>  -h, --help  show help\<newline>'')
     \<lparr>readme = Some ''intro\<newline>.. BEGIN HELP TEXT\<newline>OLD\<newline>.. END HELP TEXT\<newline>rest\<newline>'',
      console = []\<rparr>
   = Inr \<lparr>readme = Some ''intro\<newline>.. BEGIN HELP TEXT\<newline>\<newline>Output of ``nirw-search --help``::\<newline>\<newline>   usage: tool [-h]\<newline>\<newline>   options:\<newline>     -h, --help  show help\<newline>\<newline>.. END HELP TEXT\<newline>rest\<newline>'',
          console = []\<rparr>
   \<and> main (Completed 0 ''usage: tool [-h]\<newline>\<newline>options:\<newline>  -h, --help  show help\<newline>'')
     \<lparr>readme = Some ''intro\<newline>.. BEGIN HELP TEXT\<newline>\<newline>Output of ``nirw-search --help``::\<newline>\<newline>   usage: tool [-h]\<newline>\<newline>   options:\<newline>     -h, --help  show help\<newline>\<newline>.. END HELP TEXT\<newline>rest\<newline>'',
      console = []\<rparr>
   = Inr \<lparr>readme = Some ''intro\<newline>.. BEGIN HELP TEXT\<newline>\<newline>Output of ``nirw-search --help``::\<newline>\<newline>   usage: tool [-h]\<newline>\<newline>   options:\<newline>     -h, --help  show help\<newline>\<newline>.. END HELP TEXT\<newline>rest\<newline>'',
          console = []\<rparr>"
proof -
  let ?doc = "''intro\<newline>.. BEGIN HELP TEXT\<newline>OLD\<newline>.. END HELP TEXT\<newline>rest\<newline>''"
  let ?out = "''usage: tool [-h]\<newline>\<newline>options:\<newline>  -h, --help  show help\<newline>''"
  let ?W = "\<lparr>readme = Some ?doc, console = []\<rparr>"
  let ?W1 = "\<lparr>readme = Some ''intro\<newline>.. BEGIN HELP TEXT\<newline>\<newline>Output of ``nirw-search --help``::\<newline>\<newline>   usage: tool [-h]\<newline>\<newline>   options:\<newline>     -h, --help  show help\<newline>\<newline>.. END HELP TEXT\<newline>rest\<newline>'',
          console = []\<rparr>"
  have d: "utf8_decode ?out = Some (str ?out)"
    by (simp add: utf8_decode_def str_def)
  have r: "file_text ?W = Some (str ?doc)" by (simp add: text_defs)
  have f1: "first_occurrence help_begin_text (str ?doc) 0 6"
    by (simp add: first_occurrence_def occurs_at_def help_begin_text_def str_def upt_rec)
  have f2: "first_occurrence help_end_text (str ?doc) 6 29"
    by (simp add: first_occurrence_def occurs_at_def help_end_text_def str_def upt_rec)
  have a: "absent_from help_end_text (str ?out) 0"
    by (simp add: absent_from_def occurs_at_def help_end_text_def str_def upt_rec)
  have m: "main (Completed 0 ?out) ?W = Inr ?W1"
    by (simp add: eval_defs)
  from splice_idempotent[OF d r f1 f2 a, of 0] obtain w1
    where "main (Completed 0 ?out) ?W = Inr w1" "main (Completed 0 ?out) w1 = Inr w1"
    by blast
  with m have "main (Completed 0 ?out) ?W1 = Inr ?W1" by simp
  with m show ?thesis by (rule conjI)
qed

text \<open>
  A help output that holds the end marker: the second run finds the end marker inside the
  block the first run wrote and keeps the rest of that block after the new one, so the
  document grows with every run.
\<close>

theorem end_marker_in_help_counterexample:
  "main (Completed 0 ''.. END HELP TEXT'')
     \<lparr>readme = Some ''.. BEGIN HELP TEXT\<newline>OLD\<newline>.. END HELP TEXT\<newline>'', console = []\<rparr>
   = Inr \<lparr>readme = Some
       (''.. BEGIN HELP TEXT\<newline>'' @
        ''\<newline>'' @
        ''Output of ``nirw-search --help``::\<newline>'' @
        ''\<newline>'' @
        ''   .. END HELP TEXT\<newline>'' @
        ''\<newline>'' @
        ''.. END HELP TEXT\<newline>''),
      console = []\<rparr>
   \<and> main (Completed 0 ''.. END HELP TEXT'')
     \<lparr>readme = Some
       (''.. BEGIN HELP TEXT\<newline>'' @
        ''\<newline>'' @
        ''Output of ``nirw-search --help``::\<newline>'' @
        ''\<newline>'' @
        ''   .. END HELP TEXT\<newline>'' @
        ''\<newline>'' @
        ''.. END HELP TEXT\<newline>''),
      console = []\<rparr>
   = Inr \<lparr>readme = Some
       (''.. BEGIN HELP TEXT\<newline>'' @
        ''\<newline>'' @
        ''Output of ``nirw-search --help``::\<newline>'' @
        ''\<newline>'' @
        ''   .. END HELP TEXT\<newline>'' @
        ''\<newline>'' @
        ''.. END HELP TEXT\<newline>'' @
        ''\<newline>'' @
        ''.. END HELP TEXT\<newline>''),
      console = []\<rparr>
   \<and> (''.. BEGIN HELP TEXT\<newline>'' @
        ''\<newline>'' @
        ''Output of ``nirw-search --help``::\<newline>'' @
        ''\<newline>'' @
        ''   .. END HELP TEXT\<newline>'' @
        ''\<newline>'' @
        ''.. END HELP TEXT\<newline>'')
     \<noteq> (''.. BEGIN HELP TEXT\<newline>'' @
        ''\<newline>'' @
        ''Output of ``nirw-search --help``::\<newline>'' @
        ''\<newline>'' @
        ''   .. END HELP TEXT\<newline>'' @
        ''\<newline>'' @
        ''.. END HELP TEXT\<newline>'' @
        ''\<newline>'' @
        ''.. END HELP TEXT\<newline>'')"
  by (simp add: eval_defs)

end
